theory Spec2Isabelle
  imports Complex_Main "HOL-Library.Multiset"
begin

section \<open>Sweden energy price planner: data model\<close>

text \<open>
  The program is \<^verbatim>\<open>src/sweden-energy-price-planner.js\<close>. JavaScript numbers that carry
  prices and fees are modelled as \<^typ>\<open>real\<close> (finite values, exact arithmetic); instants
  (\<^verbatim>\<open>Date.getTime()\<close>) are integers in milliseconds since the epoch; array indices are
  integers, with \<open>-1\<close> the source's "none" marker.
\<close>

text \<open>One element of the JSON array that the price API returns. \<open>time_start\<close> is the
  instant that \<^verbatim>\<open>new Date(item.time_start)\<close> denotes.\<close>

record RawPricePeriod =
  time_start :: int
  SEK_per_kWh :: real

record userFees =
  gridFee :: real
  energyTax :: real
  vat :: real

text \<open>The object literal that \<^verbatim>\<open>parsePriceData\<close> builds for each item. The field
  \<^verbatim>\<open>id\<close> of the source is \<open>id_p\<close> here.\<close>

record PricedPeriod =
  id_p :: int
  timestamp :: int
  base_price :: real
  calculated_price :: real
  isPast :: bool
  dayTag :: string
  available :: bool

text \<open>The argument of \<^verbatim>\<open>parsePriceData\<close>: any value that is not an array, or an
  array of raw periods.\<close>

datatype rawInput = NotArray | Array "RawPricePeriod list"

text \<open>The host environment of the page: the offset of local time from UTC in minutes
  (one fixed offset; a change of daylight saving time during a run is outside the model) and the
  formatter \<^verbatim>\<open>toLocaleDateString("en-US", {month: "short", day: "numeric"})\<close>.\<close>

record host =
  tzOffset :: int
  toLocaleDateString :: "int \<Rightarrow> string"

section \<open>Fee normalisation and the price series\<close>

definition applyUserFees :: "real \<Rightarrow> real \<Rightarrow> real \<Rightarrow> real \<Rightarrow> real" where
  "applyUserFees basePrice vat' energyTax' gridFee' =
     (let totalFixedFee = energyTax' + gridFee';
          priceBeforeVAT = basePrice + totalFixedFee;
          finalPrice = priceBeforeVAT * (1 + vat' / 100)
      in finalPrice)"

text \<open>The callback of \<^verbatim>\<open>rawData.map\<close> in \<^verbatim>\<open>parsePriceData\<close>.\<close>

definition toPricedPeriod :: "host \<Rightarrow> int \<Rightarrow> userFees \<Rightarrow> RawPricePeriod \<Rightarrow> PricedPeriod" where
  "toPricedPeriod h nowTime fees item =
     (let timestamp' = time_start item;
          finalPrice = applyUserFees (SEK_per_kWh item) (vat fees) (energyTax fees) (gridFee fees);
          dayTag' = toLocaleDateString h timestamp'
      in \<lparr> id_p = timestamp',
           timestamp = timestamp',
           base_price = SEK_per_kWh item,
           calculated_price = finalPrice,
           isPast = (timestamp' < nowTime),
           dayTag = dayTag',
           available = True \<rparr>)"

text \<open>\<^verbatim>\<open>parsePriceData(rawData, userFees)\<close>; \<open>nowTime\<close> is the clock value the function
  reads with \<^verbatim>\<open>new Date().getTime()\<close>. \<^verbatim>\<open>Array.prototype.sort\<close> is stable and its
  comparator is the difference of the timestamps, which is what \<^const>\<open>sort_key\<close> computes.\<close>

definition parsePriceData :: "host \<Rightarrow> int \<Rightarrow> rawInput \<Rightarrow> userFees \<Rightarrow> PricedPeriod list" where
  "parsePriceData h nowTime rawData' fees =
     (case rawData' of
        NotArray \<Rightarrow> []
      | Array items \<Rightarrow>
          if length items = 0 then []
          else sort_key timestamp (map (toPricedPeriod h nowTime fees) items))"

section \<open>The slot selector\<close>

datatype js_error = TypeError

text \<open>The object literal pushed onto \<^verbatim>\<open>bestSlots\<close>. Inside the selector the field
  \<open>periods\<close> holds references to the objects of \<^verbatim>\<open>workingPrices\<close> (their indices: the
  array returned by \<^verbatim>\<open>slice\<close> shares its elements with the working array, which the
  selector goes on mutating); the value returned to the caller holds the objects themselves.\<close>

record 'p Slot =
  rank :: int
  startTime :: int
  endTime :: int
  averagePrice :: real
  totalCost :: real
  periods :: "'p list"

text \<open>\<^verbatim>\<open>Array.prototype.slice(start, end)\<close> for integer arguments.\<close>

definition slice :: "'a list \<Rightarrow> int \<Rightarrow> int \<Rightarrow> 'a list" where
  "slice xs start end' =
     (let len = int (length xs);
          k = (if start < 0 then max (len + start) 0 else min start len);
          final = (if end' < 0 then max (len + end') 0 else min end' len)
      in take (nat (final - k)) (drop (nat k) xs))"

text \<open>Reading \<^verbatim>\<open>xs[r]\<close> for a number \<open>r\<close>: \<open>None\<close> is \<^verbatim>\<open>undefined\<close>, the value of
  a read at a fractional, negative or too large index.\<close>

definition at_index :: "'a list \<Rightarrow> real \<Rightarrow> 'a option" where
  "at_index xs r =
     (if real_of_int \<lfloor>r\<rfloor> = r \<and> 0 \<le> r \<and> r < real (length xs)
      then Some (xs ! nat \<lfloor>r\<rfloor>) else None)"

definition availableIndices :: "PricedPeriod list \<Rightarrow> int list" where
  "availableIndices workingPrices =
     filter (\<lambda>index. index \<noteq> - 1)
       (map (\<lambda>(p, index). if available p then index else - 1)
          (zip workingPrices (map int [0..<length workingPrices])))"

text \<open>The sum \<^verbatim>\<open>currentBlock.reduce((sum, p) => sum + p.calculated_price, 0)\<close>.\<close>

definition blockCost :: "PricedPeriod list \<Rightarrow> real" where
  "blockCost currentBlock = foldl (\<lambda>sum p. sum + calculated_price p) 0 currentBlock"

text \<open>The window at position \<open>i\<close> of the inner loop: its cost and its first and last
  original index when the test
  \<^verbatim>\<open>blockEndOriginalIndex - blockStartOriginalIndex === periodsNeeded - 1\<close> holds. A read
  that gives \<^verbatim>\<open>undefined\<close> makes the difference \<^verbatim>\<open>NaN\<close> and the test false.\<close>

definition candidateAt ::
  "PricedPeriod list \<Rightarrow> int list \<Rightarrow> real \<Rightarrow> nat \<Rightarrow> (real \<times> int \<times> int) option" where
  "candidateAt workingPrices availableIndices' periodsNeeded i =
     (case at_index availableIndices' (real i) of
        None \<Rightarrow> None
      | Some blockStartOriginalIndex \<Rightarrow>
          (case at_index availableIndices' (real i + periodsNeeded - 1) of
             None \<Rightarrow> None
           | Some blockEndOriginalIndex \<Rightarrow>
               if real_of_int (blockEndOriginalIndex - blockStartOriginalIndex) = periodsNeeded - 1
               then Some (blockCost (slice workingPrices blockStartOriginalIndex
                                       (blockEndOriginalIndex + 1)),
                          blockStartOriginalIndex, blockEndOriginalIndex)
               else None))"

text \<open>The three variables \<^verbatim>\<open>cheapestCost\<close>, \<^verbatim>\<open>bestBlockStartIndex\<close> and
  \<^verbatim>\<open>bestBlockEndIndex\<close> are assigned together; \<open>None\<close> is their initial value
  \<^verbatim>\<open>(Infinity, -1, -1)\<close>, below which every finite cost lies.\<close>

definition scanStep ::
  "PricedPeriod list \<Rightarrow> int list \<Rightarrow> real \<Rightarrow> (real \<times> int \<times> int) option \<Rightarrow> nat
     \<Rightarrow> (real \<times> int \<times> int) option" where
  "scanStep workingPrices availableIndices' periodsNeeded best i =
     (case candidateAt workingPrices availableIndices' periodsNeeded i of
        None \<Rightarrow> best
      | Some (currentCost, blockStart, blockEnd) \<Rightarrow>
          (case best of
             None \<Rightarrow> Some (currentCost, blockStart, blockEnd)
           | Some (cheapestCost, bestStart, bestEnd) \<Rightarrow>
               if currentCost < cheapestCost then Some (currentCost, blockStart, blockEnd)
               else best))"

text \<open>The inner loop \<^verbatim>\<open>for (i = 0; i <= availableIndices.length - periodsNeeded; i++)\<close>:
  it runs for the naturals \<open>i\<close> up to the bound, none when the bound is negative.\<close>

definition scanWindows ::
  "PricedPeriod list \<Rightarrow> int list \<Rightarrow> real \<Rightarrow> (real \<times> int \<times> int) option" where
  "scanWindows workingPrices availableIndices' periodsNeeded =
     foldl (scanStep workingPrices availableIndices' periodsNeeded) None
       [0..<nat (\<lfloor>real (length availableIndices') - periodsNeeded\<rfloor> + 1)]"

text \<open>The loop \<^verbatim>\<open>for (i = bestBlockStartIndex; i <= bestBlockEndIndex; i++)
  workingPrices[i].available = false\<close>.\<close>

definition markUnavailable :: "PricedPeriod list \<Rightarrow> int \<Rightarrow> int \<Rightarrow> PricedPeriod list" where
  "markUnavailable workingPrices bestStart bestEnd =
     foldl (\<lambda>w i. w[nat i := (w ! nat i)\<lparr>available := False\<rparr>]) workingPrices
       [bestStart..bestEnd]"

text \<open>One pass of the outer loop's body at counter \<open>k\<close>: it leaves the loop
  (\<^verbatim>\<open>break\<close>), throws (\<^verbatim>\<open>bestBlock[0].timestamp\<close> on an empty block is a
  \<^verbatim>\<open>TypeError\<close>), or pushes a slot and marks its periods.\<close>

datatype roundResult =
  Break | Throw js_error | Next "PricedPeriod list \<times> int Slot list"

definition selectionRound ::
  "real \<Rightarrow> int \<Rightarrow> PricedPeriod list \<times> int Slot list \<Rightarrow> roundResult" where
  "selectionRound periodsNeeded k st =
     (let workingPrices = fst st; bestSlots = snd st;
          availableIndices' = availableIndices workingPrices
      in if real (length availableIndices') < periodsNeeded then Break
         else
           (case scanWindows workingPrices availableIndices' periodsNeeded of
              None \<Rightarrow> Break
            | Some (cheapestCost, bestBlockStartIndex, bestBlockEndIndex) \<Rightarrow>
                (let bestBlock = slice workingPrices bestBlockStartIndex (bestBlockEndIndex + 1)
                 in case bestBlock of
                      [] \<Rightarrow> Throw TypeError
                    | first # rest \<Rightarrow>
                        (let startTime' = timestamp first;
                             endTime' = timestamp (last bestBlock);
                             totalCost' = cheapestCost;
                             avgPrice = cheapestCost / periodsNeeded
                         in Next
                              (markUnavailable workingPrices bestBlockStartIndex bestBlockEndIndex,
                               bestSlots @
                                 [\<lparr> rank = k + 1,
                                    startTime = startTime',
                                    endTime = endTime' + 15 * 60000,
                                    averagePrice = avgPrice,
                                    totalCost = totalCost',
                                    periods = [bestBlockStartIndex..bestBlockEndIndex] \<rparr>])))))"

text \<open>The outer loop \<^verbatim>\<open>for (k = 0; k < numSlots; k++)\<close>, by the number of passes that
  remain.\<close>

fun selectionRounds ::
  "real \<Rightarrow> nat \<Rightarrow> int \<Rightarrow> PricedPeriod list \<times> int Slot list
     \<Rightarrow> js_error + PricedPeriod list \<times> int Slot list" where
  "selectionRounds periodsNeeded 0 k st = Inr st"
| "selectionRounds periodsNeeded (Suc n) k st =
     (case selectionRound periodsNeeded k st of
        Break \<Rightarrow> Inr st
      | Throw e \<Rightarrow> Inl e
      | Next st' \<Rightarrow> selectionRounds periodsNeeded n (k + 1) st')"

text \<open>The selector up to its \<^verbatim>\<open>return\<close>: the working copy (the deep copy through JSON
  gives every period back with its timestamp re-read, then every flag is set) and the slots
  with their references into it. A \<^verbatim>\<open>numSlots\<close> that is \<^verbatim>\<open>NaN\<close> runs no
  pass, as \<open>0\<close> does.\<close>

definition selectSlots ::
  "PricedPeriod list \<Rightarrow> real \<Rightarrow> int \<Rightarrow> js_error + PricedPeriod list \<times> int Slot list" where
  "selectSlots availablePrices hours numSlots =
     (let periodsNeeded = hours * 4;
          workingPrices = map (\<lambda>p. p\<lparr>available := True\<rparr>) availablePrices
      in selectionRounds periodsNeeded (nat numSlots) 0 (workingPrices, []))"

text \<open>What the caller sees of a slot: its periods are the objects of the working array as
  they are when the selector returns.\<close>

definition derefSlot :: "PricedPeriod list \<Rightarrow> int Slot \<Rightarrow> PricedPeriod Slot" where
  "derefSlot workingPrices s =
     \<lparr> rank = rank s, startTime = startTime s, endTime = endTime s,
       averagePrice = averagePrice s, totalCost = totalCost s,
       periods = map (\<lambda>i. workingPrices ! nat i) (periods s) \<rparr>"

definition findTopBestTimeSlots ::
  "PricedPeriod list \<Rightarrow> real \<Rightarrow> int \<Rightarrow> js_error + PricedPeriod Slot list" where
  "findTopBestTimeSlots availablePrices hours numSlots =
     (case selectSlots availablePrices hours numSlots of
        Inl e \<Rightarrow> Inl e
      | Inr (workingPrices, bestSlots) \<Rightarrow> Inr (map (derefSlot workingPrices) bestSlots))"

section \<open>Dates, strings and locations\<close>

text \<open>\<^verbatim>\<open>String(n)\<close> for a natural number.\<close>

fun digits :: "nat \<Rightarrow> string" where
  "digits n = (if n < 10 then [char_of (48 + n)] else digits (n div 10) @ [char_of (48 + n mod 10)])"

declare digits.simps [simp del]

text \<open>\<^verbatim>\<open>s.padStart(n, "0")\<close>.\<close>

definition padStart :: "nat \<Rightarrow> string \<Rightarrow> string" where
  "padStart n s = replicate (n - length s) CHR ''0'' @ s"

text \<open>The calendar date (year, month from 1, day of the month) of a day counted from
  1 January 1970, in the proleptic Gregorian calendar that \<^verbatim>\<open>Date\<close> uses.\<close>

definition civil :: "int \<Rightarrow> int \<times> int \<times> int" where
  "civil days =
     (let z = days + 719468;
          era = z div 146097;
          doe = z mod 146097;
          yoe = (doe - doe div 1460 + doe div 36524 - doe div 146096) div 365;
          doy = doe - (365 * yoe + yoe div 4 - yoe div 100);
          mp = (5 * doy + 2) div 153;
          d = doy - (153 * mp + 2) div 5 + 1;
          m = (if mp < 10 then mp + 3 else mp - 9);
          y = yoe + era * 400 + (if m \<le> 2 then 1 else 0)
      in (y, m, d))"

text \<open>The local calendar day of an instant, and the getters of \<^verbatim>\<open>Date\<close> that read it.\<close>

definition localDay :: "host \<Rightarrow> int \<Rightarrow> int" where
  "localDay h t = (t + tzOffset h * 60000) div 86400000"

definition getFullYear :: "host \<Rightarrow> int \<Rightarrow> int" where
  "getFullYear h t = fst (civil (localDay h t))"

definition getMonth :: "host \<Rightarrow> int \<Rightarrow> int" where
  "getMonth h t = fst (snd (civil (localDay h t))) - 1"

definition getDate :: "host \<Rightarrow> int \<Rightarrow> int" where
  "getDate h t = snd (snd (civil (localDay h t)))"

definition getHours :: "host \<Rightarrow> int \<Rightarrow> int" where
  "getHours h t = ((t + tzOffset h * 60000) div 3600000) mod 24"

text \<open>\<^verbatim>\<open>date.toISOString().split("T")[0]\<close>: the calendar date in UTC, for the years 0000 to
  9999.\<close>

definition toISODate :: "int \<Rightarrow> string" where
  "toISODate t =
     (case civil (t div 86400000) of
        (y, m, d) \<Rightarrow> padStart 4 (digits (nat y)) @ ''-'' @ padStart 2 (digits (nat m)) @ ''-''
                     @ padStart 2 (digits (nat d)))"

definition API_BASE_URL :: string where
  "API_BASE_URL = ''https://www.elprisetjustnu.se/api/v1/prices/''"

definition CACHE_KEY :: string where
  "CACHE_KEY = ''electricity_prices_cache''"

definition getApiUrl :: "host \<Rightarrow> int \<Rightarrow> string \<Rightarrow> string" where
  "getApiUrl h date zone =
     (let year = getFullYear h date;
          month = padStart 2 (digits (nat (getMonth h date + 1)));
          day = padStart 2 (digits (nat (getDate h date)))
      in API_BASE_URL @ digits (nat year) @ ''/'' @ month @ ''-'' @ day @ ''_'' @ zone @ ''.json'')"

section \<open>Fetching and caching\<close>

text \<open>What \<^verbatim>\<open>fetch\<close> resolves to: the status code and what \<^verbatim>\<open>response.json()\<close>
  gives, \<open>None\<close> when it rejects (or gives \<^verbatim>\<open>null\<close>, whose \<^verbatim>\<open>length\<close> cannot be
  read): in both cases control passes to the \<^verbatim>\<open>catch\<close> block. A body that parses is an
  array of raw periods.\<close>

record response =
  status :: nat
  json :: "RawPricePeriod list option"

definition ok :: "response \<Rightarrow> bool" where
  "ok r \<longleftrightarrow> 200 \<le> status r \<and> status r \<le> 299"

text \<open>The effects of \<^verbatim>\<open>fetchPrices\<close>, in order: a call of \<^verbatim>\<open>fetch(url)\<close>, and a wait
  of \<^verbatim>\<open>setTimeout\<close> in milliseconds.\<close>

datatype event = Fetch string | Delay nat

text \<open>The object \<^verbatim>\<open>{rawData, status}\<close> that \<^verbatim>\<open>fetchPrices\<close> resolves to; \<open>None\<close> is
  \<^verbatim>\<open>null\<close>. The field \<^verbatim>\<open>status\<close> is \<open>status'\<close> here.\<close>

record fetchResult =
  rawData :: "RawPricePeriod list option"
  status' :: string

text \<open>The loop of \<^verbatim>\<open>fetchPrices\<close>, by the number of passes that remain. \<open>net attempt\<close> is
  what the \<open>attempt\<close>-th call of \<^verbatim>\<open>fetch(url)\<close> does: \<open>None\<close> when it rejects. The last
  equation is the \<^verbatim>\<open>return\<close> after the loop.\<close>

fun fetchLoop ::
  "(nat \<Rightarrow> response option) \<Rightarrow> string \<Rightarrow> string \<Rightarrow> nat \<Rightarrow> nat \<Rightarrow> nat \<Rightarrow> event list
     \<Rightarrow> fetchResult \<times> event list" where
  "fetchLoop net url dateStr maxRetries (Suc n) attempt trace =
     (let trace1 = trace @ [Fetch url];
          caught =
            (if attempt = maxRetries - 1
             then (\<lparr> rawData = None,
                      status' = ''Failed to load prices for '' @ dateStr @ ''. Network error.'' \<rparr>,
                   trace1)
             else fetchLoop net url dateStr maxRetries n (attempt + 1)
                    (trace1 @ [Delay (2 ^ attempt * 1000)]))
      in case net attempt of
           None \<Rightarrow> caught
         | Some response \<Rightarrow>
             if status response = 404
             then (\<lparr> rawData = None,
                      status' = ''Prices for '' @ dateStr @ '' not yet released (404).'' \<rparr>,
                   trace1)
             else if ok response
             then (case json response of
                     None \<Rightarrow> caught
                   | Some rawData' \<Rightarrow>
                       (\<lparr> rawData = Some rawData',
                          status' = ''Prices for '' @ dateStr @ '' successfully loaded (''
                                     @ digits (length rawData') @ '' periods).'' \<rparr>,
                        trace1))
             else caught)"
| "fetchLoop net url dateStr maxRetries 0 attempt trace =
     (\<lparr> rawData = None,
        status' = ''Failed to load prices for '' @ dateStr @ '' after retries.'' \<rparr>,
      trace)"

text \<open>\<^verbatim>\<open>fetchPrices(date, zone, maxRetries = 3)\<close>: the last argument is \<open>None\<close> when the
  caller leaves it out, and the parameter then has its default. \<open>fetch url attempt\<close> is the
  network: what the \<open>attempt\<close>-th request of a location does.\<close>

definition fetchPrices ::
  "host \<Rightarrow> (string \<Rightarrow> nat \<Rightarrow> response option) \<Rightarrow> int \<Rightarrow> string \<Rightarrow> nat option
     \<Rightarrow> fetchResult \<times> event list" where
  "fetchPrices h fetch date zone' maxRetries' =
     (let maxRetries = (case maxRetries' of None \<Rightarrow> 3 | Some n \<Rightarrow> n);
          url = getApiUrl h date zone';
          dateStr = toLocaleDateString h date
      in fetchLoop (fetch url) url dateStr maxRetries maxRetries 0 [])"

text \<open>\<^verbatim>\<open>result.rawData || []\<close>: \<^verbatim>\<open>null\<close> gives the empty array, an array gives
  itself.\<close>

definition orEmpty :: "'a list option \<Rightarrow> 'a list" where
  "orEmpty rawData' = (case rawData' of None \<Rightarrow> [] | Some d \<Rightarrow> d)"

text \<open>The value stored under the cache key, as \<^verbatim>\<open>JSON.parse\<close> reads it back: the entry that
  \<^verbatim>\<open>JSON.stringify\<close> wrote, or \<open>Garbage\<close> for any other string (then \<^verbatim>\<open>JSON.parse\<close>
  throws, or gives a value that has neither the zone nor the date asked for).\<close>

record CacheEntry =
  dateFetched :: string
  zone :: string
  today :: "RawPricePeriod list"
  tomorrow :: "RawPricePeriod list"

datatype stored = Garbage | Entry CacheEntry

type_synonym localStorage = "string \<Rightarrow> stored option"

record pricesResult =
  allRawPrices :: "RawPricePeriod list"
  statusMessage :: string
  isCached :: bool

text \<open>The UTF-8 bytes of the check mark U+2705 in the status message of a cache hit.\<close>

definition checkMark :: string where
  "checkMark = [char_of (226 :: nat), char_of (156 :: nat), char_of (133 :: nat)]"

text \<open>The cache validity test of \<^verbatim>\<open>checkCacheAndFetchPrices\<close>: the entry read back, when it
  exists, is for the zone asked for, and has the date string of today.\<close>

definition validCache :: "localStorage \<Rightarrow> string \<Rightarrow> string \<Rightarrow> CacheEntry option" where
  "validCache store zone' todayDateStr =
     (case store CACHE_KEY of
        Some (Entry cachedData) \<Rightarrow>
          if zone cachedData = zone' \<and> dateFetched cachedData = todayDateStr
          then Some cachedData else None
      | _ \<Rightarrow> None)"

text \<open>\<^verbatim>\<open>checkCacheAndFetchPrices(zone)\<close> at the clock reading \<open>now\<close>, from the store
  \<open>store\<close>: the result, the store afterwards, and the effects of the two fetches, which run
  side by side on different locations. \<^verbatim>\<open>tomorrow.setDate(tomorrow.getDate() + 1)\<close> is a step
  of 24 hours.\<close>

definition checkCacheAndFetchPrices ::
  "host \<Rightarrow> (string \<Rightarrow> nat \<Rightarrow> response option) \<Rightarrow> int \<Rightarrow> localStorage \<Rightarrow> string
     \<Rightarrow> pricesResult \<times> localStorage \<times> event list \<times> event list" where
  "checkCacheAndFetchPrices h fetch now store zone' =
     (let today' = now;
          todayDateStr = toISODate today'
      in case validCache store zone' todayDateStr of
           Some cachedData \<Rightarrow>
             (\<lparr> allRawPrices = sort_key time_start (today cachedData @ tomorrow cachedData),
                statusMessage = ''Today: '' @ checkMark @ '' Cached. Tomorrow: '' @ checkMark
                                 @ '' Cached.'',
                isCached = True \<rparr>,
              store, [], [])
         | None \<Rightarrow>
             (let tomorrow' = today' + 86400000;
                  todayFetch = fetchPrices h fetch today' zone' None;
                  tomorrowFetch = fetchPrices h fetch tomorrow' zone' None;
                  todayResult = fst todayFetch;
                  tomorrowResult = fst tomorrowFetch;
                  statusMessage' = ''Today: '' @ status' todayResult @ '' | '' @ ''Tomorrow: ''
                                    @ status' tomorrowResult;
                  todayRaw = orEmpty (rawData todayResult);
                  tomorrowRaw = orEmpty (rawData tomorrowResult);
                  allRawPrices' = sort_key time_start (todayRaw @ tomorrowRaw)
              in if length todayRaw > 0 \<and> length tomorrowRaw > 0
                 then (\<lparr> allRawPrices = allRawPrices',
                          statusMessage = statusMessage' @ '' | Data successfully cached.'',
                          isCached = False \<rparr>,
                       store(CACHE_KEY \<mapsto>
                         Entry \<lparr> dateFetched = todayDateStr, zone = zone', today = todayRaw,
                                 tomorrow = tomorrowRaw \<rparr>),
                       snd todayFetch, snd tomorrowFetch)
                 else (\<lparr> allRawPrices = allRawPrices',
                          statusMessage = statusMessage' @ '' | Warning: Partial data. Not caching.'',
                          isCached = False \<rparr>,
                       store, snd todayFetch, snd tomorrowFetch)))"

section \<open>The orchestrator\<close>

text \<open>Every JavaScript object is truthy, an empty array too.\<close>

definition truthy :: "'a list \<Rightarrow> bool" where
  "truthy xs = True"

text \<open>The expression bound to \<^verbatim>\<open>availablePrices\<close> in \<^verbatim>\<open>handleCalculate\<close>:
  \<^verbatim>\<open>allPrices || allPrices.filter(...)\<close>.\<close>

definition availablePrices :: "host \<Rightarrow> PricedPeriod list \<Rightarrow> int \<Rightarrow> int \<Rightarrow> PricedPeriod list" where
  "availablePrices h allPrices startHour endHour =
     (if truthy allPrices then allPrices
      else filter
             (\<lambda>p. if isPast p then False
                  else (let priceHour = getHours h (timestamp p)
                        in if startHour \<noteq> 0 \<or> endHour \<noteq> 24
                           then priceHour \<ge> startHour \<and> priceHour < endHour
                           else True))
             allPrices)"

text \<open>The inputs of a calculation, as \<^verbatim>\<open>handleCalculate\<close> has read them from the page;
  \<open>None\<close> is the \<^verbatim>\<open>NaN\<close> that \<^verbatim>\<open>parseInt\<close> gives for text that is not a number.\<close>

record request =
  priceZone :: string
  minutesNeeded :: "int option"
  topSlotsNeeded :: "int option"
  startHour_r :: int
  endHour_r :: int
  userFees_r :: userFees

text \<open>What \<^verbatim>\<open>handleCalculate\<close> puts on the page: one of its messages, or the chart of all
  prices with the slots found.\<close>

datatype outcome =
    InvalidDuration
  | NoData string
  | NotEnough int int
  | NoSlot
  | Found "PricedPeriod list" "PricedPeriod Slot list"
  | CriticalError

text \<open>\<^verbatim>\<open>handleCalculate\<close> from its input validation on (before that it saves the inputs
  under another key of the store). \<open>now\<close> is the clock when the cache is checked and
  \<open>nowParse\<close> the clock when the series is built. An exception thrown inside the
  \<^verbatim>\<open>try\<close> block ends in its \<^verbatim>\<open>catch\<close>.\<close>

definition handleCalculate ::
  "host \<Rightarrow> (string \<Rightarrow> nat \<Rightarrow> response option) \<Rightarrow> int \<Rightarrow> int \<Rightarrow> localStorage \<Rightarrow> request
     \<Rightarrow> outcome \<times> localStorage" where
  "handleCalculate h fetch now nowParse store req =
     (case minutesNeeded req of
        None \<Rightarrow> (InvalidDuration, store)
      | Some minutes \<Rightarrow>
          if minutes < 15 \<or> minutes > 48 * 60 then (InvalidDuration, store)
          else
            (let fetched = checkCacheAndFetchPrices h fetch now store (priceZone req);
                 result = fst fetched;
                 store' = fst (snd fetched)
             in if length (allRawPrices result) = 0 then (NoData (statusMessage result), store')
                else
                  (let allPrices = parsePriceData h nowParse (Array (allRawPrices result))
                                     (userFees_r req);
                       availablePrices' =
                         availablePrices h allPrices (startHour_r req) (endHour_r req);
                       totalSlotsAvailable = int (length availablePrices');
                       totalMinutesAvailable = totalSlotsAvailable * 15;
                       hoursNeeded = real_of_int minutes / 60
                   in if totalMinutesAvailable < minutes
                      then (NotEnough minutes totalMinutesAvailable, store')
                      else
                        (case findTopBestTimeSlots availablePrices' hoursNeeded
                                (case topSlotsNeeded req of None \<Rightarrow> 0 | Some n \<Rightarrow> n) of
                           Inl e \<Rightarrow> (CriticalError, store')
                         | Inr results \<Rightarrow>
                             if length results = 0 then (NoSlot, store')
                             else (Found allPrices results, store')))))"

section \<open>Notions used in the statements\<close>

text \<open>A valid candidate of a pass, in the words of the specification: a run of periods
  \<open>s, \<dots>, e\<close> of the working array, all of them available, whose first and last original
  indices differ by exactly \<open>periodsNeeded - 1\<close>.\<close>

definition validCandidate :: "PricedPeriod list \<Rightarrow> real \<Rightarrow> int \<Rightarrow> int \<Rightarrow> bool" where
  "validCandidate workingPrices periodsNeeded s e \<longleftrightarrow>
     0 \<le> s \<and> s \<le> e \<and> e < int (length workingPrices)
     \<and> (\<forall>i \<in> set [s..e]. available (workingPrices ! nat i))
     \<and> real_of_int (e - s) = periodsNeeded - 1"

text \<open>What a selection consists of, apart from the periods' own data: for each slot its rank,
  the original indices of its block, its total cost and its average price; or the error thrown.\<close>

definition chosenBlocks ::
  "PricedPeriod list \<Rightarrow> real \<Rightarrow> int \<Rightarrow> js_error + (int \<times> int list \<times> real \<times> real) list" where
  "chosenBlocks series hours numSlots =
     (case selectSlots series hours numSlots of
        Inl e \<Rightarrow> Inl e
      | Inr (workingPrices, bestSlots) \<Rightarrow>
          Inr (map (\<lambda>s. (rank s, periods s, totalCost s, averagePrice s)) bestSlots))"

text \<open>An attempt that ends in the \<^verbatim>\<open>catch\<close> block: the request was rejected, or the
  response is neither a 404 nor a successful one with a body that parses.\<close>

definition failed :: "response option \<Rightarrow> bool" where
  "failed outcome \<longleftrightarrow>
     (case outcome of
        None \<Rightarrow> True
      | Some r \<Rightarrow> status r \<noteq> 404 \<and> \<not> (ok r \<and> json r \<noteq> None))"

text \<open>The effects of \<open>a\<close> failed attempts, each followed by its wait of \<open>2 ^ attempt\<close>
  seconds.\<close>

definition backoff :: "string \<Rightarrow> nat \<Rightarrow> event list" where
  "backoff url a = concat (map (\<lambda>attempt. [Fetch url, Delay (2 ^ attempt * 1000)]) [0..<a])"


section \<open>Invariants of the outer loop of the selector\<close>

text \<open>The state of the outer loop against the series the selector was given: the working array
  is that series up to the flags, every period a slot refers to lies in the array and is marked
  unavailable, and no two slots refer to a common index.\<close>

definition consumed :: "PricedPeriod list \<Rightarrow> PricedPeriod list \<times> int Slot list \<Rightarrow> bool" where
  "consumed ap st \<longleftrightarrow>
     map (\<lambda>p. p\<lparr>available := True\<rparr>) (fst st) = map (\<lambda>p. p\<lparr>available := True\<rparr>) ap
     \<and> (\<forall>slot \<in> set (snd st). \<forall>i \<in> set (periods slot).
           0 \<le> i \<and> i < int (length ap) \<and> \<not> available (fst st ! nat i))
     \<and> (\<forall>a b. a < b \<longrightarrow> b < length (snd st)
           \<longrightarrow> set (periods (snd st ! a)) \<inter> set (periods (snd st ! b)) = {})"

text \<open>The counter equals the number of slots pushed, ranks count from one, costs do not
  decrease along the list, and no pushed slot costs more than a candidate that is still valid.\<close>

definition ranked :: "real \<Rightarrow> int \<Rightarrow> PricedPeriod list \<times> int Slot list \<Rightarrow> bool" where
  "ranked pn k st \<longleftrightarrow>
     k = int (length (snd st))
     \<and> (\<forall>a<length (snd st). rank (snd st ! a) = int a + 1)
     \<and> sorted (map totalCost (snd st))
     \<and> (\<forall>slot \<in> set (snd st). \<forall>s e. validCandidate (fst st) pn s e
           \<longrightarrow> totalCost slot \<le> blockCost (slice (fst st) s (e + 1)))"

text \<open>Two states of the outer loop with the same prices, the same flags and the same selection
  so far.\<close>

definition alike ::
  "PricedPeriod list \<times> int Slot list \<Rightarrow> PricedPeriod list \<times> int Slot list \<Rightarrow> bool" where
  "alike st1 st2 \<longleftrightarrow>
     map calculated_price (fst st1) = map calculated_price (fst st2)
     \<and> map available (fst st1) = map available (fst st2)
     \<and> map (\<lambda>s. (rank s, periods s, totalCost s, averagePrice s)) (snd st1)
       = map (\<lambda>s. (rank s, periods s, totalCost s, averagePrice s)) (snd st2)"

section \<open>Sample data\<close>

text \<open>A sample series: three quarter-hour periods, the second passed in with its flag
  cleared, and what the selector returns for it when asked for five slots of one period.\<close>

definition period :: "int \<Rightarrow> real \<Rightarrow> bool \<Rightarrow> bool \<Rightarrow> PricedPeriod" where
  "period t c past a =
     \<lparr> id_p = t, timestamp = t, base_price = c, calculated_price = c, isPast = past,
       dayTag = ''Jan 1'', available = a \<rparr>"

definition examplePrices :: "PricedPeriod list" where
  "examplePrices =
     [period 0 2 False True, period 900000 1 False False, period 1800000 1 False True]"

definition exampleSlots :: "PricedPeriod Slot list" where
  "exampleSlots =
     [\<lparr>rank = 1, startTime = 900000, endTime = 1800000, averagePrice = 1, totalCost = 1,
        periods = [period 900000 1 False False]\<rparr>,
      \<lparr>rank = 2, startTime = 1800000, endTime = 2700000, averagePrice = 1, totalCost = 1,
        periods = [period 1800000 1 False False]\<rparr>,
      \<lparr>rank = 3, startTime = 0, endTime = 900000, averagePrice = 2, totalCost = 2,
        periods = [period 0 2 False False]\<rparr>]"


text \<open>A host one hour east of UTC, as Sweden is in winter, on the first days of a January.\<close>

definition swedishWinter :: host where
  "swedishWinter =
     \<lparr> tzOffset = 60,
       toLocaleDateString = (\<lambda>t. ''Jan '' @ digits (nat (snd (snd (civil ((t + 3600000) div 86400000)))))) \<rparr>"

text \<open>A network on which the file of 2 January 2025 for zone SE3 holds one period, starting
  at local midnight, and arrives at the third request, after a rejected request and a server
  error; every other location answers 404.\<close>

definition exampleNet :: "string \<Rightarrow> nat \<Rightarrow> response option" where
  "exampleNet url attempt =
     (if url = ''https://www.elprisetjustnu.se/api/v1/prices/2025/01-02_SE3.json''
      then (if attempt = 0 then None
            else if attempt = 1 then Some \<lparr>status = 500, json = None\<rparr>
            else Some \<lparr>status = 200,
                        json = Some [\<lparr>time_start = 1735772400000, SEK_per_kWh = 1 / 2\<rparr>]\<rparr>)
      else Some \<lparr>status = 404, json = None\<rparr>)"

text \<open>A network on which every request is rejected.\<close>

definition deadNet :: "string \<Rightarrow> nat \<Rightarrow> response option" where
  "deadNet url attempt = None"

text \<open>A network on which the files of 1 and 2 January 2025 for zone SE3 hold one period each;
  every other location answers 404.\<close>

definition fullNet :: "string \<Rightarrow> nat \<Rightarrow> response option" where
  "fullNet url attempt =
     (if url = ''https://www.elprisetjustnu.se/api/v1/prices/2025/01-01_SE3.json''
      then Some \<lparr>status = 200,
                  json = Some [\<lparr>time_start = 1735686000000, SEK_per_kWh = 1 / 4\<rparr>]\<rparr>
      else if url = ''https://www.elprisetjustnu.se/api/v1/prices/2025/01-02_SE3.json''
      then Some \<lparr>status = 200,
                  json = Some [\<lparr>time_start = 1735772400000, SEK_per_kWh = 1 / 2\<rparr>]\<rparr>
      else Some \<lparr>status = 404, json = None\<rparr>)"

text \<open>The entry that a run at noon of 1 January 2025 stores from that network, and a store that
  holds it.\<close>

definition exampleEntry :: CacheEntry where
  "exampleEntry =
     \<lparr> dateFetched = ''2025-01-01'', zone = ''SE3'',
       today = [\<lparr>time_start = 1735686000000, SEK_per_kWh = 1 / 4\<rparr>],
       tomorrow = [\<lparr>time_start = 1735772400000, SEK_per_kWh = 1 / 2\<rparr>] \<rparr>"

definition exampleStore :: localStorage where
  "exampleStore = Map.empty(CACHE_KEY \<mapsto> Entry exampleEntry)"

text \<open>A request for one quarter of an hour, two slots, in the window from 8 to 16 o'clock.\<close>

definition exampleRequest :: request where
  "exampleRequest =
     \<lparr> priceZone = ''SE3'', minutesNeeded = Some 15, topSlotsNeeded = Some 2,
       startHour_r = 8, endHour_r = 16,
       userFees_r = \<lparr> gridFee = 0, energyTax = 0, vat = 25 \<rparr> \<rparr>"

section \<open>Properties of the fee normaliser and the series builder\<close>

lemma parsePriceData_Array:
  "parsePriceData h nowTime (Array items) fees =
     sort_key timestamp (map (toPricedPeriod h nowTime fees) items)"
  by (cases items) (simp_all add: parsePriceData_def)

text \<open>
  Claim C8. \<^verbatim>\<open>parsePriceData\<close> returns the empty series for a value that is not an
  array and for the empty array; for every array of raw periods, in any order, the result is
  sorted ascending by timestamp and holds exactly the priced periods of the input items, each as
  often as its item occurs (nothing dropped, nothing duplicated), so it has the input's length.
\<close>

theorem parsePriceData_sorted_complete:
  "parsePriceData h nowTime NotArray fees = []
   \<and> parsePriceData h nowTime (Array []) fees = []
   \<and> sorted (map timestamp (parsePriceData h nowTime (Array items) fees))
   \<and> mset (parsePriceData h nowTime (Array items) fees)
       = image_mset (toPricedPeriod h nowTime fees) (mset items)
   \<and> length (parsePriceData h nowTime (Array items) fees) = length items
   \<and> mset (map timestamp (parsePriceData h nowTime (Array items) fees))
       = mset (map time_start items)"
proof -
  let ?r = "parsePriceData h nowTime (Array items) fees"
  have ts: "timestamp (toPricedPeriod h nowTime fees item) = time_start item" for item
    by (simp add: toPricedPeriod_def Let_def)
  have m: "mset ?r = image_mset (toPricedPeriod h nowTime fees) (mset items)"
    by (simp add: parsePriceData_Array)
  have "mset (map timestamp ?r) = image_mset timestamp (mset ?r)"
    by simp
  also have "\<dots> = image_mset time_start (mset items)"
    unfolding m by (simp add: image_mset.compositionality comp_def ts)
  finally have t: "mset (map timestamp ?r) = mset (map time_start items)"
    by simp
  have s: "sorted (map timestamp ?r)"
    by (simp add: parsePriceData_Array)
  have l: "length ?r = length items"
    by (simp add: parsePriceData_Array)
  have e: "parsePriceData h nowTime NotArray fees = []"
          "parsePriceData h nowTime (Array []) fees = []"
    by (simp_all add: parsePriceData_def)
  from e s m l t show ?thesis by blast
qed


section \<open>Properties of the slot selector\<close>

subsection \<open>The list of available indices\<close>

lemma zip_index:
  "zip xs (map int [0..<length xs]) = map (\<lambda>i. (xs ! i, int i)) [0..<length xs]"
  by (rule nth_equalityI) simp_all

lemma flagged_filter:
  "filter (\<lambda>index. index \<noteq> - 1) (map (\<lambda>i. if P i then int i else - 1) ns)
     = map int (filter P ns)"
  by (induction ns) auto

lemma availableIndices_eq:
  "availableIndices wp = map int (filter (\<lambda>i. available (wp ! i)) [0..<length wp])"
  unfolding availableIndices_def zip_index
  using flagged_filter [of "\<lambda>i. available (wp ! i)" "[0..<length wp]"]
  by (simp add: comp_def)

lemma availableIndices_set:
  "set (availableIndices wp) = {i. 0 \<le> i \<and> i < int (length wp) \<and> available (wp ! nat i)}"
proof -
  have "x \<in> int ` {i. i < length wp \<and> available (wp ! i)}"
    if "0 \<le> x" "x < int (length wp)" "available (wp ! nat x)" for x
    using that by (intro image_eqI [of _ _ "nat x"]) simp_all
  then show ?thesis
    by (auto simp: availableIndices_eq)
qed

lemma availableIndices_strict: "sorted_wrt (<) (availableIndices wp)"
proof -
  have "sorted_wrt (<) (filter (\<lambda>i. available (wp ! i)) [0..<length wp])"
    by (rule sorted_wrt_filter) simp
  then show ?thesis
    by (simp add: availableIndices_eq sorted_wrt_map)
qed

lemma strict_nth_mono:
  fixes xs :: "int list"
  assumes "sorted_wrt (<) xs" "i \<le> j" "j < length xs"
  shows "xs ! i \<le> xs ! j"
proof (cases "i = j")
  case True
  then show ?thesis by simp
next
  case False
  with assms have "i < j" by simp
  then have "xs ! i < xs ! j" using assms by (simp add: sorted_wrt_iff_nth_less)
  then show ?thesis by simp
qed

lemma strict_nth_less_iff:
  fixes xs :: "int list"
  assumes "sorted_wrt (<) xs" "i < length xs" "j < length xs"
  shows "xs ! i < xs ! j \<longleftrightarrow> i < j"
  using assms
  by (metis linorder_neqE_nat not_less_iff_gr_or_eq sorted_wrt_nth_less)

lemma strict_gap:
  fixes xs :: "int list"
  assumes "sorted_wrt (<) xs" "j < length xs"
  shows "i \<le> j \<Longrightarrow> xs ! i + int (j - i) \<le> xs ! j"
proof (induction "j - i" arbitrary: i)
  case 0
  then show ?case by simp
next
  case (Suc d)
  then have "Suc i \<le> j" "d = j - Suc i" by auto
  with Suc.hyps(1) have "xs ! Suc i + int (j - Suc i) \<le> xs ! j" by blast
  moreover have "xs ! i < xs ! Suc i"
    using assms \<open>Suc i \<le> j\<close> by (simp add: sorted_wrt_iff_nth_less)
  ultimately show ?case using \<open>Suc i \<le> j\<close> by linarith
qed

lemma strict_tight:
  fixes xs :: "int list"
  assumes s: "sorted_wrt (<) xs" and j: "j < length xs" and ij: "i \<le> j"
    and eq: "xs ! j - xs ! i = int (j - i)" and m: "i \<le> m" "m \<le> j"
  shows "xs ! m = xs ! i + int (m - i)"
proof -
  have "xs ! i + int (m - i) \<le> xs ! m"
    using strict_gap [OF s, of m i] m j by simp
  moreover have "xs ! m + int (j - m) \<le> xs ! j"
    using strict_gap [OF s j, of m] m by simp
  ultimately show ?thesis using eq m by linarith
qed

lemma strict_succ:
  fixes xs :: "int list"
  assumes s: "sorted_wrt (<) xs" and i: "i < length xs" and x: "xs ! i + 1 \<in> set xs"
  shows "Suc i < length xs \<and> xs ! Suc i = xs ! i + 1"
proof -
  from x obtain j where j: "j < length xs" "xs ! j = xs ! i + 1"
    by (auto simp: in_set_conv_nth)
  then have "xs ! i < xs ! j" by simp
  then have "i < j" using strict_nth_less_iff [OF s i j(1)] by simp
  then have si: "Suc i \<le> j" by simp
  then have l: "Suc i < length xs" using j by simp
  have "xs ! i < xs ! Suc i" using s l by (simp add: sorted_wrt_iff_nth_less)
  moreover have "xs ! Suc i \<le> xs ! j" by (rule strict_nth_mono [OF s si j(1)])
  ultimately show ?thesis using l j by simp
qed

lemma strict_run:
  fixes xs :: "int list"
  assumes s: "sorted_wrt (<) xs" and i: "i < length xs"
  shows "(\<forall>d. d \<le> m \<longrightarrow> xs ! i + int d \<in> set xs) \<Longrightarrow> i + m < length xs \<and> xs ! (i + m) = xs ! i + int m"
proof (induction m)
  case 0
  then show ?case using i by simp
next
  case (Suc m)
  then have ih: "i + m < length xs" "xs ! (i + m) = xs ! i + int m" by auto
  have e: "xs ! i + int (Suc m) = xs ! (i + m) + 1"
    using ih by simp
  have "xs ! i + int (Suc m) \<in> set xs"
    using Suc.prems by blast
  then have "xs ! (i + m) + 1 \<in> set xs"
    unfolding e .
  from strict_succ [OF s ih(1) this] ih show ?case by simp
qed

subsection \<open>Windows and the scan for the cheapest one\<close>

lemma at_index_Some_iff:
  "at_index xs r = Some x \<longleftrightarrow> (\<exists>j. j < length xs \<and> real j = r \<and> x = xs ! j)"
proof
  assume a: "at_index xs r = Some x"
  then have h: "real_of_int \<lfloor>r\<rfloor> = r" "0 \<le> r" "r < real (length xs)" "x = xs ! nat \<lfloor>r\<rfloor>"
    by (auto simp: at_index_def split: if_splits)
  have "real (nat \<lfloor>r\<rfloor>) = r" using h(1,2) by simp
  moreover from this have "nat \<lfloor>r\<rfloor> < length xs" using h(3) by linarith
  ultimately show "\<exists>j. j < length xs \<and> real j = r \<and> x = xs ! j" using h(4) by blast
next
  assume "\<exists>j. j < length xs \<and> real j = r \<and> x = xs ! j"
  then obtain j where "j < length xs" "r = real j" "x = xs ! j" by auto
  then show "at_index xs r = Some x"
    by (simp add: at_index_def)
qed

lemma at_index_nat: "at_index xs (real i) = (if i < length xs then Some (xs ! i) else None)"
  by (simp add: at_index_def)

lemma candidateAt_Some_iff:
  "candidateAt wp ai pn i = Some (c, s, e) \<longleftrightarrow>
     i < length ai \<and> s = ai ! i
     \<and> (\<exists>j. j < length ai \<and> real j = real i + pn - 1 \<and> e = ai ! j)
     \<and> real_of_int (e - s) = pn - 1
     \<and> c = blockCost (slice wp s (e + 1))"
proof (cases "at_index ai (real i + pn - 1)")
  case None
  then have "\<not> (\<exists>j. j < length ai \<and> real j = real i + pn - 1 \<and> e = ai ! j)"
    using at_index_Some_iff [of ai "real i + pn - 1" e] by simp
  with None show ?thesis
    by (simp add: candidateAt_def at_index_nat)
next
  case (Some e')
  then obtain j where j: "j < length ai" "real j = real i + pn - 1" "e' = ai ! j"
    using at_index_Some_iff [of ai "real i + pn - 1" e'] by auto
  have u: "j' = j" if "real j' = real i + pn - 1" for j'
    using that j(2) by simp
  have eq: "candidateAt wp ai pn i =
      (if i < length ai \<and> real_of_int (e' - ai ! i) = pn - 1
       then Some (blockCost (slice wp (ai ! i) (e' + 1)), ai ! i, e') else None)"
    using Some by (simp add: candidateAt_def at_index_nat)
  have ex: "(\<exists>j. j < length ai \<and> real j = real i + pn - 1 \<and> e = ai ! j) \<longleftrightarrow> e = e'"
    using j u by blast
  show ?thesis
    unfolding eq ex by (cases "i < length ai \<and> real_of_int (e' - ai ! i) = pn - 1") auto
qed

lemma scan_range_iff:
  "i < nat (\<lfloor>real n - pn\<rfloor> + 1) \<longleftrightarrow> real i \<le> real n - pn"
proof -
  have "i < nat (\<lfloor>real n - pn\<rfloor> + 1) \<longleftrightarrow> int i \<le> \<lfloor>real n - pn\<rfloor>"
    by linarith
  also have "\<dots> \<longleftrightarrow> real i \<le> real n - pn"
    by (simp add: le_floor_iff)
  finally show ?thesis .
qed

text \<open>The scan keeps the first window of least cost.\<close>

lemma scan_fold:
  "(case foldl (scanStep wp ai pn) None [0..<N] of
      None \<Rightarrow> (\<forall>i<N. candidateAt wp ai pn i = None)
    | Some (c, s, e) \<Rightarrow>
        (\<exists>i<N. candidateAt wp ai pn i = Some (c, s, e)
           \<and> (\<forall>i'<N. \<forall>c' s' e'. candidateAt wp ai pn i' = Some (c', s', e')
                  \<longrightarrow> c \<le> c' \<and> (c' = c \<longrightarrow> i \<le> i'))))"
proof (induction N)
  case 0
  then show ?case by simp
next
  case (Suc N)
  let ?r = "foldl (scanStep wp ai pn) None [0..<N]"
  have step: "foldl (scanStep wp ai pn) None [0..<Suc N] = scanStep wp ai pn ?r N"
    by simp
  show ?case
  proof (cases "candidateAt wp ai pn N")
    case None
    then have "scanStep wp ai pn ?r N = ?r" by (simp add: scanStep_def)
    with Suc None show ?thesis
      unfolding step by (auto split: option.splits simp: less_Suc_eq)
  next
    case (Some cand)
    obtain c' s' e' where cand: "cand = (c', s', e')" by (cases cand)
    show ?thesis
    proof (cases ?r)
      case None
      then have "scanStep wp ai pn ?r N = Some (c', s', e')"
        using Some cand by (simp add: scanStep_def)
      moreover from Suc None have "\<forall>i<N. candidateAt wp ai pn i = None" by simp
      ultimately show ?thesis
        unfolding step using Some cand by (auto simp: less_Suc_eq)
    next
      case best: (Some b)
      obtain c s e where b: "b = (c, s, e)" by (cases b)
      from Suc best b obtain i where i: "i < N" "candidateAt wp ai pn i = Some (c, s, e)"
        and least: "\<And>i' c' s' e'. i' < N \<Longrightarrow> candidateAt wp ai pn i' = Some (c', s', e')
                \<Longrightarrow> c \<le> c' \<and> (c' = c \<longrightarrow> i \<le> i')"
        by auto
      show ?thesis
      proof (cases "c' < c")
        case True
        then have r: "scanStep wp ai pn ?r N = Some (c', s', e')"
          using Some cand best b by (simp add: scanStep_def)
        have "c' \<le> c'' \<and> (c'' = c' \<longrightarrow> N \<le> i')"
          if "i' < Suc N" "candidateAt wp ai pn i' = Some (c'', s'', e'')" for i' c'' s'' e''
        proof (cases "i' = N")
          case True
          with that Some cand show ?thesis by simp
        next
          case False
          with that have "i' < N" by simp
          from least [OF this that(2)] \<open>c' < c\<close> show ?thesis by auto
        qed
        then have all: "\<forall>i'<Suc N. \<forall>c'' s'' e''. candidateAt wp ai pn i' = Some (c'', s'', e'')
                      \<longrightarrow> c' \<le> c'' \<and> (c'' = c' \<longrightarrow> N \<le> i')"
          by blast
        have "\<exists>i<Suc N. candidateAt wp ai pn i = Some (c', s', e')
               \<and> (\<forall>i'<Suc N. \<forall>c'' s'' e''. candidateAt wp ai pn i' = Some (c'', s'', e'')
                      \<longrightarrow> c' \<le> c'' \<and> (c'' = c' \<longrightarrow> i \<le> i'))"
        proof (intro exI conjI)
          show "N < Suc N" by simp
          show "candidateAt wp ai pn N = Some (c', s', e')" using Some cand by simp
          show "\<forall>i'<Suc N. \<forall>c'' s'' e''. candidateAt wp ai pn i' = Some (c'', s'', e'')
                      \<longrightarrow> c' \<le> c'' \<and> (c'' = c' \<longrightarrow> N \<le> i')"
            by (rule all)
        qed
        then show ?thesis
          unfolding step r by simp
      next
        case False
        then have r: "scanStep wp ai pn ?r N = Some (c, s, e)"
          using Some cand best b by (simp add: scanStep_def)
        have "c \<le> c'' \<and> (c'' = c \<longrightarrow> i \<le> i')"
          if "i' < Suc N" "candidateAt wp ai pn i' = Some (c'', s'', e'')" for i' c'' s'' e''
        proof (cases "i' = N")
          case True
          with that Some cand have "c'' = c'" by simp
          with False i(1) True show ?thesis by simp
        next
          case False
          with that have "i' < N" by simp
          from least [OF this that(2)] show ?thesis .
        qed
        then have "\<forall>i'<Suc N. \<forall>c'' s'' e''. candidateAt wp ai pn i' = Some (c'', s'', e'')
                      \<longrightarrow> c \<le> c'' \<and> (c'' = c \<longrightarrow> i \<le> i')"
          by blast
        moreover have "i < Suc N" using i by simp
        ultimately have "\<exists>i<Suc N. candidateAt wp ai pn i = Some (c, s, e)
               \<and> (\<forall>i'<Suc N. \<forall>c'' s'' e''. candidateAt wp ai pn i' = Some (c'', s'', e'')
                      \<longrightarrow> c \<le> c'' \<and> (c'' = c \<longrightarrow> i \<le> i'))"
          using i(2) by blast
        then show ?thesis
          unfolding step r by simp
      qed
    qed
  qed
qed

lemma candidate_valid:
  assumes c: "candidateAt wp (availableIndices wp) pn i = Some (c, s, e)" and se: "s \<le> e"
  shows "validCandidate wp pn s e"
proof -
  let ?ai = "availableIndices wp"
  note st = availableIndices_strict [of wp]
  from c obtain j where i: "i < length ?ai" and s: "s = ?ai ! i" and j: "j < length ?ai"
    and ji: "real j = real i + pn - 1" and e: "e = ?ai ! j" and d: "real_of_int (e - s) = pn - 1"
    unfolding candidateAt_Some_iff by blast
  have ij: "i \<le> j"
  proof (rule ccontr)
    assume "\<not> i \<le> j"
    then have "j < i" by simp
    then have "?ai ! j < ?ai ! i" using st i by (simp add: sorted_wrt_iff_nth_less)
    with se s e show False by simp
  qed
  have "real_of_int (e - s) = real j - real i" using d ji by simp
  also have "\<dots> = real_of_int (int (j - i))" using ij by simp
  finally have gap: "?ai ! j - ?ai ! i = int (j - i)" using s e by simp
  have mem: "x \<in> set ?ai" if "s \<le> x" "x \<le> e" for x
  proof -
    let ?m = "i + nat (x - s)"
    have m: "i \<le> ?m" "?m \<le> j" using that gap s e ij by auto
    have "?ai ! ?m = ?ai ! i + int (?m - i)"
      by (rule strict_tight [OF st j ij gap m])
    also have "\<dots> = x" using that s by simp
    finally have eq: "?ai ! ?m = x" .
    have "?m < length ?ai" using m j by simp
    then have "?ai ! ?m \<in> set ?ai" by (rule nth_mem)
    then show ?thesis unfolding eq .
  qed
  have "s \<in> set ?ai" "e \<in> set ?ai"
    using mem se by simp_all
  then have "0 \<le> s" "e < int (length wp)"
    unfolding availableIndices_set by simp_all
  moreover have "\<forall>x \<in> set [s..e]. available (wp ! nat x)"
  proof
    fix x assume "x \<in> set [s..e]"
    then have "s \<le> x" "x \<le> e" by simp_all
    from mem [OF this] show "available (wp ! nat x)"
      unfolding availableIndices_set by simp
  qed
  ultimately show ?thesis
    using se d by (simp add: validCandidate_def)
qed

lemma valid_candidate:
  assumes v: "validCandidate wp pn s e"
  shows "\<exists>i. candidateAt wp (availableIndices wp) pn i = Some (blockCost (slice wp s (e + 1)), s, e)"
proof -
  let ?ai = "availableIndices wp"
  note st = availableIndices_strict [of wp]
  from v have s0: "0 \<le> s" and se: "s \<le> e" and el: "e < int (length wp)"
    and av: "\<And>x. s \<le> x \<Longrightarrow> x \<le> e \<Longrightarrow> available (wp ! nat x)"
    and d: "real_of_int (e - s) = pn - 1"
    by (auto simp: validCandidate_def)
  have mem: "x \<in> set ?ai" if "s \<le> x" "x \<le> e" for x
    using that av s0 el by (simp add: availableIndices_set)
  from mem [of s] se obtain i where i: "i < length ?ai" "?ai ! i = s"
    by (auto simp: in_set_conv_nth)
  let ?m = "nat (e - s)"
  have "\<forall>d. d \<le> ?m \<longrightarrow> ?ai ! i + int d \<in> set ?ai"
    using mem i se by auto
  from strict_run [OF st i(1) this] have j: "i + ?m < length ?ai" "?ai ! (i + ?m) = e"
    using i se by auto
  have "real (i + ?m) = real i + real_of_int (e - s)"
    using se by simp
  then have ji: "real (i + ?m) = real i + pn - 1" using d by simp
  have "candidateAt wp ?ai pn i = Some (blockCost (slice wp s (e + 1)), s, e)"
    unfolding candidateAt_Some_iff using i j ji d by auto
  then show ?thesis ..
qed


lemma scanWindows_Some:
  assumes "scanWindows wp ai pn = Some (c, s, e)"
  shows "\<exists>i. candidateAt wp ai pn i = Some (c, s, e)
           \<and> (\<forall>i' c' s' e'. candidateAt wp ai pn i' = Some (c', s', e')
                  \<longrightarrow> c \<le> c' \<and> (c' = c \<longrightarrow> i \<le> i'))"
proof -
  let ?N = "nat (\<lfloor>real (length ai) - pn\<rfloor> + 1)"
  have inr: "i' < ?N" if "candidateAt wp ai pn i' = Some (c', s', e')" for i' c' s' e'
  proof -
    from that obtain j where "j < length ai" "real j = real i' + pn - 1"
      unfolding candidateAt_Some_iff by blast
    then have "real i' \<le> real (length ai) - pn" by linarith
    then show ?thesis by (simp only: scan_range_iff)
  qed
  from scan_fold [where wp = wp and ai = ai and pn = pn and N = ?N] assms
  obtain i where i: "candidateAt wp ai pn i = Some (c, s, e)"
    and least: "\<And>i' c' s' e'. i' < ?N \<Longrightarrow> candidateAt wp ai pn i' = Some (c', s', e')
                  \<Longrightarrow> c \<le> c' \<and> (c' = c \<longrightarrow> i \<le> i')"
    by (auto simp: scanWindows_def)
  have "\<forall>i' c' s' e'. candidateAt wp ai pn i' = Some (c', s', e')
                  \<longrightarrow> c \<le> c' \<and> (c' = c \<longrightarrow> i \<le> i')"
    using least inr by blast
  with i show ?thesis by blast
qed

subsection \<open>Blocks, their cost and their marking\<close>

lemma slice_block:
  assumes "0 \<le> s" "0 \<le> e" "e < int (length xs)"
  shows "slice xs s (e + 1) = map (\<lambda>i. xs ! nat i) [s..e]"
proof (cases "s \<le> e")
  case True
  with assms have eq: "slice xs s (e + 1) = take (nat (e + 1 - s)) (drop (nat s) xs)"
    by (simp add: slice_def Let_def min_def)
  show ?thesis
    unfolding eq
  proof (rule nth_equalityI)
    show "length (take (nat (e + 1 - s)) (drop (nat s) xs)) = length (map (\<lambda>i. xs ! nat i) [s..e])"
      using True assms by simp
  next
    fix n assume "n < length (take (nat (e + 1 - s)) (drop (nat s) xs))"
    then have n: "n < nat (e + 1 - s)" "nat s + n < length xs" by auto
    then have "[s..e] ! n = s + int n" "n < length [s..e]" by simp_all
    then show "take (nat (e + 1 - s)) (drop (nat s) xs) ! n = map (\<lambda>i. xs ! nat i) [s..e] ! n"
      using n assms by (simp add: nat_add_distrib)
  qed
next
  case False
  with assms have "slice xs s (e + 1) = []"
    by (simp add: slice_def Let_def min_def)
  with False show ?thesis by simp
qed

lemma blockCost_sum: "blockCost xs = sum_list (map calculated_price xs)"
proof -
  have "foldl (\<lambda>sum p. sum + calculated_price p) a xs = a + sum_list (map calculated_price xs)" for a
    by (induction xs arbitrary: a) simp_all
  then show ?thesis by (simp add: blockCost_def)
qed

lemma markUnavailable_fold:
  "length (foldl (\<lambda>w i. w[nat i := (w ! nat i)\<lparr>available := False\<rparr>]) wp is) = length wp
   \<and> (\<forall>j<length wp. (\<forall>i\<in>set is. 0 \<le> i) \<longrightarrow>
        foldl (\<lambda>w i. w[nat i := (w ! nat i)\<lparr>available := False\<rparr>]) wp is ! j
          = (if int j \<in> set is then (wp ! j)\<lparr>available := False\<rparr> else wp ! j))"
proof (induction "is" arbitrary: wp)
  case Nil
  then show ?case by simp
next
  case (Cons i "is")
  let ?w = "wp[nat i := (wp ! nat i)\<lparr>available := False\<rparr>]"
  note ih = Cons.IH [of ?w]
  have len: "length (foldl (\<lambda>w i. w[nat i := (w ! nat i)\<lparr>available := False\<rparr>]) wp (i # is)) = length wp"
    using ih by simp
  have nth: "foldl (\<lambda>w i. w[nat i := (w ! nat i)\<lparr>available := False\<rparr>]) wp (i # is) ! j
          = (if int j \<in> set (i # is) then (wp ! j)\<lparr>available := False\<rparr> else wp ! j)"
    if j: "j < length wp" and pos: "\<forall>x\<in>set (i # is). 0 \<le> x" for j
  proof -
    have "foldl (\<lambda>w i. w[nat i := (w ! nat i)\<lparr>available := False\<rparr>]) ?w is ! j
          = (if int j \<in> set is then (?w ! j)\<lparr>available := False\<rparr> else ?w ! j)"
      using ih j pos by simp
    moreover have "int j = i \<longleftrightarrow> j = nat i" using pos by auto
    ultimately show ?thesis using j by (auto simp: nth_list_update)
  qed
  from len nth show ?case by blast
qed

lemma markUnavailable_length: "length (markUnavailable wp s e) = length wp"
  using markUnavailable_fold [of wp "[s..e]"] by (simp add: markUnavailable_def)

lemma markUnavailable_nth:
  assumes "0 \<le> s" "j < length wp"
  shows "markUnavailable wp s e ! j
           = (if s \<le> int j \<and> int j \<le> e then (wp ! j)\<lparr>available := False\<rparr> else wp ! j)"
proof -
  have "\<forall>i\<in>set [s..e]. 0 \<le> i" using assms(1) by simp
  with markUnavailable_fold [of wp "[s..e]"] assms(2) show ?thesis
    by (simp add: markUnavailable_def)
qed

lemma markUnavailable_prices:
  assumes "0 \<le> s"
  shows "map calculated_price (markUnavailable wp s e) = map calculated_price wp"
  by (rule nth_equalityI) (simp_all add: markUnavailable_length markUnavailable_nth [OF assms])

lemma markUnavailable_timestamps:
  assumes "0 \<le> s"
  shows "map timestamp (markUnavailable wp s e) = map timestamp wp"
  by (rule nth_equalityI) (simp_all add: markUnavailable_length markUnavailable_nth [OF assms])

lemma markUnavailable_available:
  assumes "0 \<le> s" "0 \<le> i" "i < int (length wp)"
  shows "available (markUnavailable wp s e ! nat i) \<longleftrightarrow> available (wp ! nat i) \<and> \<not> (s \<le> i \<and> i \<le> e)"
  using assms by (simp add: markUnavailable_nth)

lemma slice_cost:
  assumes "0 \<le> s" "0 \<le> e" "e < int (length wp)"
  shows "blockCost (slice wp s (e + 1)) = sum_list (map (\<lambda>i. map calculated_price wp ! nat i) [s..e])"
proof -
  have "calculated_price (wp ! nat i) = map calculated_price wp ! nat i" if "i \<in> set [s..e]" for i
    using that assms by (simp add: nat_less_iff)
  then have m: "map (\<lambda>i. calculated_price (wp ! nat i)) [s..e]
           = map (\<lambda>i. map calculated_price wp ! nat i) [s..e]"
    by (rule map_cong [OF refl])
  show ?thesis
    by (simp only: blockCost_sum slice_block [OF assms] map_map comp_def m)
qed

lemma selectionRound_Next:
  assumes "selectionRound pn k (wp, ss) = Next (wp', ss')"
  shows "\<exists>c s e. scanWindows wp (availableIndices wp) pn = Some (c, s, e)
           \<and> slice wp s (e + 1) \<noteq> []
           \<and> wp' = markUnavailable wp s e
           \<and> ss' = ss @ [\<lparr> rank = k + 1,
                            startTime = timestamp (hd (slice wp s (e + 1))),
                            endTime = timestamp (last (slice wp s (e + 1))) + 15 * 60000,
                            averagePrice = c / pn, totalCost = c, periods = [s..e] \<rparr>]"
  using assms
  by (auto simp: selectionRound_def Let_def split: if_splits option.splits list.splits)

subsection \<open>One pass of the outer loop\<close>

lemma candidate_bounds:
  assumes "candidateAt wp (availableIndices wp) pn i = Some (c, s, e)"
  shows "0 \<le> s \<and> s < int (length wp) \<and> 0 \<le> e \<and> e < int (length wp)"
proof -
  from assms obtain j where "i < length (availableIndices wp)" "s = availableIndices wp ! i"
    "j < length (availableIndices wp)" "e = availableIndices wp ! j"
    unfolding candidateAt_Some_iff by blast
  then have "s \<in> set (availableIndices wp)" "e \<in> set (availableIndices wp)"
    by simp_all
  then show ?thesis
    unfolding availableIndices_set by simp
qed

text \<open>What a pass that pushes a slot has done.\<close>

lemma selectionRound_choice:
  assumes "selectionRound pn k (wp, ss) = Next (wp', ss')"
  shows "\<exists>s e slot. validCandidate wp pn s e
           \<and> wp' = markUnavailable wp s e
           \<and> ss' = ss @ [slot]
           \<and> rank slot = k + 1
           \<and> periods slot = [s..e]
           \<and> totalCost slot = blockCost (slice wp s (e + 1))
           \<and> (\<forall>s' e'. validCandidate wp pn s' e'
                 \<longrightarrow> blockCost (slice wp s (e + 1)) \<le> blockCost (slice wp s' (e' + 1))
                   \<and> (blockCost (slice wp s' (e' + 1)) = blockCost (slice wp s (e + 1))
                        \<longrightarrow> s \<le> s'))"
proof -
  let ?ai = "availableIndices wp"
  from selectionRound_Next [OF assms] obtain c s e slot
    where scan: "scanWindows wp ?ai pn = Some (c, s, e)"
      and ne: "slice wp s (e + 1) \<noteq> []"
      and wp': "wp' = markUnavailable wp s e"
      and ss': "ss' = ss @ [slot]"
      and slot: "rank slot = k + 1" "periods slot = [s..e]" "totalCost slot = c"
    by fastforce
  from scanWindows_Some [OF scan] obtain i
    where i: "candidateAt wp ?ai pn i = Some (c, s, e)"
      and least: "\<And>i' c' s' e'. candidateAt wp ?ai pn i' = Some (c', s', e')
                    \<Longrightarrow> c \<le> c' \<and> (c' = c \<longrightarrow> i \<le> i')"
    by blast
  note b = candidate_bounds [OF i]
  have se: "s \<le> e"
    using ne b slice_block [of s e wp] by (cases "s \<le> e") simp_all
  have valid: "validCandidate wp pn s e"
    by (rule candidate_valid [OF i se])
  have c: "c = blockCost (slice wp s (e + 1))"
    using i unfolding candidateAt_Some_iff by blast
  have si: "s = ?ai ! i" "i < length ?ai"
    using i unfolding candidateAt_Some_iff by blast+
  have best: "c \<le> blockCost (slice wp s' (e' + 1))
              \<and> (blockCost (slice wp s' (e' + 1)) = c \<longrightarrow> s \<le> s')"
    if v: "validCandidate wp pn s' e'" for s' e'
  proof -
    from valid_candidate [OF v] obtain i'
      where i': "candidateAt wp ?ai pn i' = Some (blockCost (slice wp s' (e' + 1)), s', e')"
      by blast
    then have si': "s' = ?ai ! i'" "i' < length ?ai"
      unfolding candidateAt_Some_iff by blast+
    from least [OF i'] have l: "c \<le> blockCost (slice wp s' (e' + 1))"
      "blockCost (slice wp s' (e' + 1)) = c \<Longrightarrow> i \<le> i'"
      by blast+
    have "s \<le> s'" if "blockCost (slice wp s' (e' + 1)) = c"
      using strict_nth_mono [OF availableIndices_strict l(2) si'(2)] that si si' by simp
    with l(1) show ?thesis by blast
  qed
  show ?thesis
    using valid wp' ss' slot best unfolding c by blast
qed


lemma valid_after_mark:
  assumes s: "0 \<le> s" and v: "validCandidate (markUnavailable wp s e) pn s' e'"
  shows "validCandidate wp pn s' e'"
    and "blockCost (slice (markUnavailable wp s e) s' (e' + 1)) = blockCost (slice wp s' (e' + 1))"
    and "\<forall>i \<in> set [s'..e']. \<not> (s \<le> i \<and> i \<le> e)"
proof -
  from v have b: "0 \<le> s'" "s' \<le> e'" "e' < int (length wp)"
    and av: "\<And>i. s' \<le> i \<Longrightarrow> i \<le> e' \<Longrightarrow> available (markUnavailable wp s e ! nat i)"
    and d: "real_of_int (e' - s') = pn - 1"
    by (auto simp: validCandidate_def markUnavailable_length)
  have av': "available (wp ! nat i) \<and> \<not> (s \<le> i \<and> i \<le> e)" if "s' \<le> i" "i \<le> e'" for i
    using av [OF that] markUnavailable_available [OF s, of i wp e] that b by simp
  then show "validCandidate wp pn s' e'"
    using b d by (simp add: validCandidate_def)
  show "\<forall>i \<in> set [s'..e']. \<not> (s \<le> i \<and> i \<le> e)"
    using av' by simp
  have "0 \<le> e'" using b by simp
  then show "blockCost (slice (markUnavailable wp s e) s' (e' + 1)) = blockCost (slice wp s' (e' + 1))"
    using b by (simp add: slice_cost markUnavailable_length markUnavailable_prices [OF s])
qed

lemma selectionRounds_invariant:
  assumes "selectionRounds pn n k st = Inr st'" and "P k st"
    and "\<And>k st st'. P k st \<Longrightarrow> selectionRound pn k st = Next st' \<Longrightarrow> P (k + 1) st'"
  shows "\<exists>k'. P k' st'"
  using assms(1,2)
proof (induction n arbitrary: k st)
  case 0
  then show ?case by auto
next
  case (Suc n)
  show ?case
  proof (cases "selectionRound pn k st")
    case Break
    with Suc.prems show ?thesis by auto
  next
    case (Throw err)
    with Suc.prems show ?thesis by simp
  next
    case (Next st1)
    with Suc.prems have "selectionRounds pn n (k + 1) st1 = Inr st'" by simp
    moreover have "P (k + 1) st1" by (rule assms(3) [OF Suc.prems(2) Next])
    ultimately show ?thesis by (rule Suc.IH)
  qed
qed

subsection \<open>Invariants of the outer loop\<close>

lemma markUnavailable_erased:
  assumes "0 \<le> s"
  shows "map (\<lambda>p. p\<lparr>available := True\<rparr>) (markUnavailable wp s e) = map (\<lambda>p. p\<lparr>available := True\<rparr>) wp"
  by (rule nth_equalityI) (simp_all add: markUnavailable_length markUnavailable_nth [OF assms])

lemma consumed_step:
  assumes inv: "consumed ap (wp, ss)" and r: "selectionRound pn k (wp, ss) = Next (wp', ss')"
  shows "consumed ap (wp', ss')"
proof -
  from selectionRound_choice [OF r] obtain s e slot
    where v: "validCandidate wp pn s e" and wp': "wp' = markUnavailable wp s e"
      and ss': "ss' = ss @ [slot]" and per: "periods slot = [s..e]"
    by blast
  from inv have er: "map (\<lambda>p. p\<lparr>available := True\<rparr>) wp = map (\<lambda>p. p\<lparr>available := True\<rparr>) ap"
    and un: "\<And>slot i. slot \<in> set ss \<Longrightarrow> i \<in> set (periods slot)
               \<Longrightarrow> 0 \<le> i \<and> i < int (length ap) \<and> \<not> available (wp ! nat i)"
    and dj: "\<And>a b. a < b \<Longrightarrow> b < length ss \<Longrightarrow> set (periods (ss ! a)) \<inter> set (periods (ss ! b)) = {}"
    by (auto simp: consumed_def)
  from er have len: "length wp = length ap"
    by (metis length_map)
  from v have s0: "0 \<le> s" and el: "e < int (length wp)"
    and av: "\<And>i. i \<in> set [s..e] \<Longrightarrow> available (wp ! nat i)"
    by (auto simp: validCandidate_def)
  have er': "map (\<lambda>p. p\<lparr>available := True\<rparr>) wp' = map (\<lambda>p. p\<lparr>available := True\<rparr>) ap"
    unfolding wp' markUnavailable_erased [OF s0] by (rule er)
  have un': "0 \<le> i \<and> i < int (length ap) \<and> \<not> available (wp' ! nat i)"
    if "sl \<in> set ss'" "i \<in> set (periods sl)" for sl i
  proof (cases "sl \<in> set ss")
    case True
    from un [OF True that(2)] show ?thesis
      unfolding wp' using markUnavailable_available [OF s0, of i wp e] len by simp
  next
    case False
    with that ss' per have i: "s \<le> i" "i \<le> e" by auto
    then have "0 \<le> i" "i < int (length wp)" using s0 el by simp_all
    then show ?thesis
      unfolding wp' using markUnavailable_available [OF s0, of i wp e] len i by simp
  qed
  have dj': "set (periods (ss' ! a)) \<inter> set (periods (ss' ! b)) = {}"
    if "a < b" "b < length ss'" for a b
  proof (cases "b < length ss")
    case True
    with that dj [OF that(1) True] show ?thesis
      by (simp add: ss' nth_append)
  next
    case False
    with that have b: "b = length ss" and a: "a < length ss" by (simp_all add: ss')
    have "i \<notin> set [s..e]" if "i \<in> set (periods (ss ! a))" for i
      using un [OF nth_mem [OF a] that] av [of i] by blast
    then show ?thesis
      using a b per by (auto simp: ss' nth_append)
  qed
  show ?thesis
    unfolding consumed_def using er' un' dj' by simp
qed

lemma selectSlots_consumed:
  assumes "selectSlots ap hours numSlots = Inr st"
  shows "consumed ap st"
proof -
  let ?P = "\<lambda>(k::int) st. consumed ap st"
  have init: "?P 0 (map (\<lambda>p. p\<lparr>available := True\<rparr>) ap, [])"
    by (simp add: consumed_def comp_def)
  have step: "?P (k + 1) st'" if "?P k st" "selectionRound (hours * 4) k st = Next st'" for k st st'
    using consumed_step [of ap "fst st" "snd st" "hours * 4" k "fst st'" "snd st'"] that by simp
  from assms have "selectionRounds (hours * 4) (nat numSlots) 0 (map (\<lambda>p. p\<lparr>available := True\<rparr>) ap, []) = Inr st"
    by (simp add: selectSlots_def)
  from selectionRounds_invariant [where P = ?P, OF this init step] show ?thesis
    by simp
qed

lemma ranked_step:
  assumes inv: "ranked pn k (wp, ss)" and r: "selectionRound pn k (wp, ss) = Next (wp', ss')"
  shows "ranked pn (k + 1) (wp', ss')"
proof -
  from selectionRound_choice [OF r] obtain s e slot
    where v: "validCandidate wp pn s e" and wp': "wp' = markUnavailable wp s e"
      and ss': "ss' = ss @ [slot]" and rk: "rank slot = k + 1"
      and cost: "totalCost slot = blockCost (slice wp s (e + 1))"
      and least: "\<And>s' e'. validCandidate wp pn s' e'
                 \<Longrightarrow> blockCost (slice wp s (e + 1)) \<le> blockCost (slice wp s' (e' + 1))"
    by blast
  from inv have k: "k = int (length ss)"
    and rks: "\<And>a. a < length ss \<Longrightarrow> rank (ss ! a) = int a + 1"
    and srt: "sorted (map totalCost ss)"
    and low: "\<And>sl s e. sl \<in> set ss \<Longrightarrow> validCandidate wp pn s e
               \<Longrightarrow> totalCost sl \<le> blockCost (slice wp s (e + 1))"
    by (auto simp: ranked_def)
  from v have s0: "0 \<le> s" by (simp add: validCandidate_def)
  have k': "k + 1 = int (length ss')" using k by (simp add: ss')
  have rks': "rank (ss' ! a) = int a + 1" if "a < length ss'" for a
    using that rks [of a] rk k by (cases "a < length ss") (auto simp: ss' nth_append)
  have "totalCost sl \<le> totalCost slot" if "sl \<in> set ss" for sl
    unfolding cost by (rule low [OF that v])
  then have srt': "sorted (map totalCost ss')"
    using srt by (simp add: ss' sorted_append)
  have low': "totalCost sl \<le> blockCost (slice wp' s' (e' + 1))"
    if "sl \<in> set ss'" and v': "validCandidate wp' pn s' e'" for sl s' e'
  proof -
    note va = valid_after_mark [OF s0 v' [unfolded wp']]
    have eq: "blockCost (slice wp' s' (e' + 1)) = blockCost (slice wp s' (e' + 1))"
      unfolding wp' by (rule va(2))
    show ?thesis
    proof (cases "sl \<in> set ss")
      case True
      from low [OF True va(1)] show ?thesis unfolding eq .
    next
      case False
      with that ss' have "sl = slot" by simp
      with least [OF va(1)] cost show ?thesis unfolding eq by simp
    qed
  qed
  show ?thesis
    unfolding ranked_def using k' rks' srt' low' by simp
qed

lemma selectSlots_ranked:
  assumes "selectSlots ap hours numSlots = Inr st"
  shows "\<exists>k. ranked (hours * 4) k st"
proof -
  have init: "ranked (hours * 4) 0 (map (\<lambda>p. p\<lparr>available := True\<rparr>) ap, [])"
    by (simp add: ranked_def)
  have step: "ranked (hours * 4) (k + 1) st'"
    if "ranked (hours * 4) k st" "selectionRound (hours * 4) k st = Next st'" for k st st'
    using ranked_step [of "hours * 4" k "fst st" "snd st" "fst st'" "snd st'"] that by simp
  from assms have "selectionRounds (hours * 4) (nat numSlots) 0 (map (\<lambda>p. p\<lparr>available := True\<rparr>) ap, []) = Inr st"
    by (simp add: selectSlots_def)
  from selectionRounds_invariant [where P = "ranked (hours * 4)", OF this init step] show ?thesis .
qed

subsection \<open>The returned slots are disjoint\<close>

lemma example_run: "findTopBestTimeSlots examplePrices (1 / 4) 5 = Inr exampleSlots"
  by code_simp

lemma flag_erased:
  assumes "p\<lparr>available := True\<rparr> = q\<lparr>available := True\<rparr>" "\<not> available p"
  shows "p = q\<lparr>available := False\<rparr>"
  using assms by (cases p, cases q) simp

lemma findTopBestTimeSlots_Inr:
  assumes "findTopBestTimeSlots ap hours numSlots = Inr slots"
  shows "\<exists>wp ss. selectSlots ap hours numSlots = Inr (wp, ss) \<and> slots = map (derefSlot wp) ss"
  using assms by (auto simp: findTopBestTimeSlots_def split: sum.splits)

text \<open>
  Claim C2. Whenever \<^verbatim>\<open>findTopBestTimeSlots\<close> returns a list of slots, for any series, duration
  and count, each slot's periods are the periods of the series at a list of original indices
  (with the flag cleared), and for any two distinct returned slots these index lists have no
  index in common. When the timestamps of the series are pairwise different, no timestamp occurs
  in the period lists of two distinct returned slots either.
\<close>

theorem findTopBestTimeSlots_disjoint:
  assumes "findTopBestTimeSlots ap hours numSlots = Inr slots"
  shows "\<exists>blocks. length blocks = length slots
           \<and> (\<forall>a<length slots. set (blocks ! a) \<subseteq> {0..<int (length ap)}
                 \<and> periods (slots ! a) = map (\<lambda>i. (ap ! nat i)\<lparr>available := False\<rparr>) (blocks ! a))
           \<and> (\<forall>a b. a < length slots \<longrightarrow> b < length slots \<longrightarrow> a \<noteq> b
                 \<longrightarrow> set (blocks ! a) \<inter> set (blocks ! b) = {})
           \<and> (distinct (map timestamp ap)
                 \<longrightarrow> (\<forall>a b. a < length slots \<longrightarrow> b < length slots \<longrightarrow> a \<noteq> b
                        \<longrightarrow> set (map timestamp (periods (slots ! a)))
                            \<inter> set (map timestamp (periods (slots ! b))) = {}))"
proof -
  from findTopBestTimeSlots_Inr [OF assms] obtain wp ss
    where sel: "selectSlots ap hours numSlots = Inr (wp, ss)" and slots: "slots = map (derefSlot wp) ss"
    by blast
  from selectSlots_consumed [OF sel]
  have er: "map (\<lambda>p. p\<lparr>available := True\<rparr>) wp = map (\<lambda>p. p\<lparr>available := True\<rparr>) ap"
    and un: "\<And>slot i. slot \<in> set ss \<Longrightarrow> i \<in> set (periods slot)
               \<Longrightarrow> 0 \<le> i \<and> i < int (length ap) \<and> \<not> available (wp ! nat i)"
    and dj: "\<And>a b. a < b \<Longrightarrow> b < length ss \<Longrightarrow> set (periods (ss ! a)) \<inter> set (periods (ss ! b)) = {}"
    by (auto simp: consumed_def)
  from er have len: "length wp = length ap" by (metis length_map)
  let ?blocks = "map periods ss"
  have l: "length ?blocks = length slots" by (simp add: slots)
  have rng: "set (?blocks ! a) \<subseteq> {0..<int (length ap)}" if "a < length slots" for a
    using that un [OF nth_mem [of a ss]] by (auto simp: slots)
  have obj: "wp ! nat i = (ap ! nat i)\<lparr>available := False\<rparr>"
    if "a < length slots" "i \<in> set (?blocks ! a)" for a i
  proof -
    from that have u: "0 \<le> i" "i < int (length ap)" "\<not> available (wp ! nat i)"
      using un [OF nth_mem [of a ss], of i] by (simp_all add: slots)
    then have n: "nat i < length ap" by simp
    have "(wp ! nat i)\<lparr>available := True\<rparr> = (ap ! nat i)\<lparr>available := True\<rparr>"
      using nth_map [of "nat i" wp "\<lambda>p. p\<lparr>available := True\<rparr>"]
        nth_map [of "nat i" ap "\<lambda>p. p\<lparr>available := True\<rparr>"] n len er by simp
    then show ?thesis using u(3) by (rule flag_erased)
  qed
  have per: "periods (slots ! a) = map (\<lambda>i. (ap ! nat i)\<lparr>available := False\<rparr>) (?blocks ! a)"
    if "a < length slots" for a
  proof -
    have "periods (slots ! a) = map (\<lambda>i. wp ! nat i) (?blocks ! a)"
      using that by (simp add: slots derefSlot_def)
    also have "\<dots> = map (\<lambda>i. (ap ! nat i)\<lparr>available := False\<rparr>) (?blocks ! a)"
      by (rule map_cong [OF refl]) (rule obj [OF that])
    finally show ?thesis .
  qed
  have dis: "set (?blocks ! a) \<inter> set (?blocks ! b) = {}"
    if "a < length slots" "b < length slots" "a \<noteq> b" for a b
  proof (cases "a < b")
    case True
    with that dj [of a b] show ?thesis by (simp add: slots)
  next
    case False
    with that have "b < a" by simp
    with that dj [of b a] show ?thesis by (auto simp: slots)
  qed
  have tdis: "set (map timestamp (periods (slots ! a))) \<inter> set (map timestamp (periods (slots ! b))) = {}"
    if d: "distinct (map timestamp ap)" and ab: "a < length slots" "b < length slots" "a \<noteq> b" for a b
  proof (rule ccontr)
    assume "\<not> ?thesis"
    then obtain t where "t \<in> set (map timestamp (periods (slots ! a)))"
      "t \<in> set (map timestamp (periods (slots ! b)))" by blast
    then obtain i j where i: "i \<in> set (?blocks ! a)" "t = timestamp (ap ! nat i)"
      and j: "j \<in> set (?blocks ! b)" "t = timestamp (ap ! nat j)"
      unfolding per [OF ab(1)] per [OF ab(2)] by auto
    from rng [OF ab(1)] i(1) have "i \<in> {0..<int (length ap)}" by (rule subsetD)
    then have ri: "0 \<le> i" "nat i < length ap" by (simp_all add: nat_less_iff)
    from rng [OF ab(2)] j(1) have "j \<in> {0..<int (length ap)}" by (rule subsetD)
    then have rj: "0 \<le> j" "nat j < length ap" by (simp_all add: nat_less_iff)
    have "map timestamp ap ! nat i = map timestamp ap ! nat j"
      using i(2) j(2) ri rj by simp
    then have "nat i = nat j"
      using nth_eq_iff_index_eq [OF d, of "nat i" "nat j"] ri rj by simp
    then have "i = j" using ri rj by simp
    with i(1) j(1) dis [OF ab] show False by blast
  qed
  show ?thesis
    using l rng per dis tdis by (intro exI [of _ ?blocks]) blast
qed

theorem findTopBestTimeSlots_disjoint_witness:
  "findTopBestTimeSlots examplePrices (1 / 4) 5 = Inr exampleSlots
   \<and> distinct (map timestamp examplePrices)
   \<and> set (map timestamp (periods (exampleSlots ! 0)))
       \<inter> set (map timestamp (periods (exampleSlots ! 2))) = {}"
proof -
  have h: "findTopBestTimeSlots examplePrices (1 / 4) 5 = Inr exampleSlots"
    by (rule example_run)
  have d: "distinct (map timestamp examplePrices)"
    by code_simp
  have l: "0 < length exampleSlots" "2 < length exampleSlots" "(0::nat) \<noteq> 2"
    by (simp_all add: exampleSlots_def)
  from findTopBestTimeSlots_disjoint [OF h] d l
  have "set (map timestamp (periods (exampleSlots ! 0)))
       \<inter> set (map timestamp (periods (exampleSlots ! 2))) = {}"
    by blast
  with h d show ?thesis by blast
qed

subsection \<open>Cost order of the returned slots, and what one pass chooses\<close>

text \<open>
  Claim C3. Whenever \<^verbatim>\<open>findTopBestTimeSlots\<close> returns a list of slots, the slot at position
  \<open>a\<close> of the list has rank \<open>a + 1\<close>, the total costs do not decrease along the list, so a
  slot of smaller or equal rank never costs more than another, and the slot of rank 1 has the
  least total cost of all returned slots.
\<close>

theorem findTopBestTimeSlots_cost_order:
  assumes "findTopBestTimeSlots ap hours numSlots = Inr slots"
  shows "(\<forall>a<length slots. rank (slots ! a) = int a + 1)
       \<and> sorted (map totalCost slots)
       \<and> (\<forall>x \<in> set slots. \<forall>y \<in> set slots. rank x \<le> rank y \<longrightarrow> totalCost x \<le> totalCost y)
       \<and> (\<forall>x \<in> set slots. rank x = 1 \<longrightarrow> (\<forall>y \<in> set slots. totalCost x \<le> totalCost y))"
proof -
  from findTopBestTimeSlots_Inr [OF assms] obtain wp ss
    where sel: "selectSlots ap hours numSlots = Inr (wp, ss)" and slots: "slots = map (derefSlot wp) ss"
    by blast
  from selectSlots_ranked [OF sel]
  have rks: "\<And>a. a < length ss \<Longrightarrow> rank (ss ! a) = int a + 1"
    and srt: "sorted (map totalCost ss)"
    by (auto simp: ranked_def)
  have r: "rank (slots ! a) = int a + 1" if "a < length slots" for a
    using that rks [of a] by (simp add: slots derefSlot_def)
  have "map totalCost slots = map totalCost ss"
    by (simp add: slots derefSlot_def comp_def)
  with srt have s: "sorted (map totalCost slots)" by simp
  have le: "totalCost (slots ! a) \<le> totalCost (slots ! b)" if "a \<le> b" "b < length slots" for a b
    using sorted_nth_mono [OF s, of a b] that by simp
  have o: "totalCost x \<le> totalCost y"
    if "x \<in> set slots" "y \<in> set slots" "rank x \<le> rank y" for x y
  proof -
    from that obtain a b where a: "a < length slots" "x = slots ! a"
      and b: "b < length slots" "y = slots ! b"
      by (auto simp: in_set_conv_nth)
    with that(3) r [OF a(1)] r [OF b(1)] have "a \<le> b" by simp
    from le [OF this b(1)] a b show ?thesis by simp
  qed
  have one: "totalCost x \<le> totalCost y"
    if "x \<in> set slots" "rank x = 1" "y \<in> set slots" for x y
  proof -
    from that(3) obtain b where "b < length slots" "y = slots ! b"
      by (auto simp: in_set_conv_nth)
    with r [of b] have "1 \<le> rank y" by simp
    with that show ?thesis by (intro o) simp_all
  qed
  from r s o one show ?thesis by blast
qed

theorem findTopBestTimeSlots_cost_order_witness:
  "findTopBestTimeSlots examplePrices (1 / 4) 5 = Inr exampleSlots
   \<and> rank (exampleSlots ! 2) = 3
   \<and> sorted (map totalCost exampleSlots)"
proof -
  have h: "findTopBestTimeSlots examplePrices (1 / 4) 5 = Inr exampleSlots"
    by (rule example_run)
  have l: "2 < length exampleSlots"
    by (simp add: exampleSlots_def)
  from findTopBestTimeSlots_cost_order [OF h] l
  have "rank (exampleSlots ! 2) = int 2 + 1" "sorted (map totalCost exampleSlots)"
    by blast+
  with h show ?thesis by simp
qed



subsection \<open>The flags of the given series do not matter\<close>

lemma slice_map: "map f (slice xs a b) = slice (map f xs) a b"
  by (simp add: slice_def Let_def take_map drop_map)

lemma blockCost_slice_prices:
  "blockCost (slice wp a b) = sum_list (slice (map calculated_price wp) a b)"
  by (simp add: blockCost_sum slice_map)

lemma slice_Nil_length:
  assumes "length xs = length ys"
  shows "slice xs a b = [] \<longleftrightarrow> slice ys a b = []"
proof -
  have "length (slice xs a b) = length (slice ys a b)"
    using assms by (simp add: slice_def Let_def)
  then show ?thesis by (metis length_0_conv)
qed

lemma availableIndices_flags:
  assumes "map available wp1 = map available wp2"
  shows "availableIndices wp1 = availableIndices wp2"
proof -
  from assms have len: "length wp1 = length wp2" by (metis length_map)
  have "available (wp1 ! i) = available (wp2 ! i)" if "i < length wp1" for i
    using that len nth_map [of i wp1 available] nth_map [of i wp2 available] assms by simp
  then have "filter (\<lambda>i. available (wp1 ! i)) [0..<length wp1]
           = filter (\<lambda>i. available (wp2 ! i)) [0..<length wp1]"
    by (intro filter_cong) simp_all
  then show ?thesis
    by (simp add: availableIndices_eq len)
qed

lemma candidateAt_prices:
  assumes "map calculated_price wp1 = map calculated_price wp2"
  shows "candidateAt wp1 ai pn i = candidateAt wp2 ai pn i"
  unfolding candidateAt_def blockCost_slice_prices assms ..

lemma scanWindows_prices:
  assumes "map calculated_price wp1 = map calculated_price wp2"
  shows "scanWindows wp1 ai pn = scanWindows wp2 ai pn"
proof -
  have "scanStep wp1 ai pn = scanStep wp2 ai pn"
    by (intro ext) (simp add: scanStep_def candidateAt_prices [OF assms])
  then show ?thesis by (simp add: scanWindows_def)
qed

lemma mark_one_price:
  "map calculated_price (w[n := (w ! n)\<lparr>available := False\<rparr>]) = map calculated_price w"
proof (rule nth_equalityI)
  show "length (map calculated_price (w[n := (w ! n)\<lparr>available := False\<rparr>]))
      = length (map calculated_price w)"
    by simp
next
  fix i assume "i < length (map calculated_price (w[n := (w ! n)\<lparr>available := False\<rparr>]))"
  then have "i < length w" by simp
  then show "map calculated_price (w[n := (w ! n)\<lparr>available := False\<rparr>]) ! i
           = map calculated_price w ! i"
    by (cases "i = n") simp_all
qed

lemma mark_one_flag:
  "map available (w[n := (w ! n)\<lparr>available := False\<rparr>]) = (map available w)[n := False]"
  by (simp add: map_update)

lemma markUnavailable_alike:
  "map calculated_price (foldl (\<lambda>w i. w[nat i := (w ! nat i)\<lparr>available := False\<rparr>]) wp is)
     = map calculated_price wp
   \<and> map available (foldl (\<lambda>w i. w[nat i := (w ! nat i)\<lparr>available := False\<rparr>]) wp is)
     = foldl (\<lambda>w i. w[nat i := False]) (map available wp) is"
  by (induction "is" arbitrary: wp) (simp_all add: mark_one_price mark_one_flag)

lemma selectionRound_alike:
  assumes a: "alike st1 st2"
  shows "(case selectionRound pn k st1 of
            Break \<Rightarrow> selectionRound pn k st2 = Break
          | Throw err \<Rightarrow> selectionRound pn k st2 = Throw err
          | Next st1' \<Rightarrow> (\<exists>st2'. selectionRound pn k st2 = Next st2' \<and> alike st1' st2'))"
proof -
  obtain wp1 ss1 wp2 ss2 where st: "st1 = (wp1, ss1)" "st2 = (wp2, ss2)"
    by (cases st1, cases st2)
  from a have pr: "map calculated_price wp1 = map calculated_price wp2"
    and fl: "map available wp1 = map available wp2"
    and sl: "map (\<lambda>s. (rank s, periods s, totalCost s, averagePrice s)) ss1
           = map (\<lambda>s. (rank s, periods s, totalCost s, averagePrice s)) ss2"
    by (simp_all add: alike_def st)
  from pr have len: "length wp1 = length wp2" by (metis length_map)
  note ai = availableIndices_flags [OF fl]
  note sc = scanWindows_prices [OF pr, of "availableIndices wp2" pn]
  show ?thesis
  proof (cases "real (length (availableIndices wp2)) < pn")
    case True
    then show ?thesis by (simp add: selectionRound_def ai st)
  next
    case long: False
    show ?thesis
    proof (cases "scanWindows wp2 (availableIndices wp2) pn")
      case None
      with long show ?thesis by (simp add: selectionRound_def ai sc st)
    next
      case (Some best)
      obtain c s e where best: "best = (c, s, e)" by (cases best)
      show ?thesis
      proof (cases "slice wp2 s (e + 1) = []")
        case True
        moreover from True have "slice wp1 s (e + 1) = []"
          using slice_Nil_length [OF len] by simp
        ultimately show ?thesis
          using long Some best by (simp add: selectionRound_def ai sc st)
      next
        case False
        moreover from False have "slice wp1 s (e + 1) \<noteq> []"
          using slice_Nil_length [OF len] by simp
        moreover have "alike (markUnavailable wp1 s e, ss1 @ [x]) (markUnavailable wp2 s e, ss2 @ [y])"
          if "rank x = rank y" "periods x = periods y" "totalCost x = totalCost y"
            "averagePrice x = averagePrice y" for x y :: "int Slot"
          using that pr fl sl markUnavailable_alike [of wp1 "[s..e]"] markUnavailable_alike [of wp2 "[s..e]"]
          by (simp add: alike_def markUnavailable_def)
        ultimately show ?thesis
          using long Some best
          by (simp add: selectionRound_def ai sc st Let_def split: list.splits)
      qed
    qed
  qed
qed

lemma selectionRounds_alike:
  assumes "alike st1 st2"
  shows "(case selectionRounds pn n k st1 of
            Inl err \<Rightarrow> selectionRounds pn n k st2 = Inl err
          | Inr st1' \<Rightarrow> (\<exists>st2'. selectionRounds pn n k st2 = Inr st2' \<and> alike st1' st2'))"
  using assms
proof (induction n arbitrary: k st1 st2)
  case 0
  then show ?case by simp
next
  case (Suc n)
  from selectionRound_alike [OF Suc.prems, of pn k]
  have r: "(case selectionRound pn k st1 of
            Break \<Rightarrow> selectionRound pn k st2 = Break
          | Throw err \<Rightarrow> selectionRound pn k st2 = Throw err
          | Next st1' \<Rightarrow> (\<exists>st2'. selectionRound pn k st2 = Next st2' \<and> alike st1' st2'))" .
  show ?case
  proof (cases "selectionRound pn k st1")
    case Break
    with r Suc.prems show ?thesis by simp
  next
    case (Throw err)
    with r show ?thesis by simp
  next
    case (Next st1')
    with r obtain st2' where n2: "selectionRound pn k st2 = Next st2'" and a: "alike st1' st2'"
      by auto
    have "selectionRounds pn (Suc n) k st1 = selectionRounds pn n (k + 1) st1'"
      "selectionRounds pn (Suc n) k st2 = selectionRounds pn n (k + 1) st2'"
      using Next n2 by simp_all
    then show ?thesis
      by (simp only:) (rule Suc.IH [OF a])
  qed
qed

lemma chosenBlocks_prices:
  assumes "map calculated_price ps = map calculated_price qs"
  shows "chosenBlocks ps hours numSlots = chosenBlocks qs hours numSlots"
proof -
  let ?w1 = "map (\<lambda>p. p\<lparr>available := True\<rparr>) ps" and ?w2 = "map (\<lambda>p. p\<lparr>available := True\<rparr>) qs"
  from assms have len: "length ps = length qs" by (metis length_map)
  have "map calculated_price ?w1 = map calculated_price ?w2"
    using assms by (simp add: comp_def)
  moreover have "map available ?w1 = map available ?w2"
    using len by (simp add: comp_def map_replicate_const)
  ultimately have "alike (?w1, []) (?w2, [])"
    by (simp add: alike_def)
  from selectionRounds_alike [OF this, of "hours * 4" "nat numSlots" 0]
  show ?thesis
    by (auto simp: chosenBlocks_def selectSlots_def alike_def split: sum.splits)
qed

lemma availableIndices_all:
  "availableIndices (map (\<lambda>p. p\<lparr>available := True\<rparr>) ps) = map int [0..<length ps]"
proof -
  have "filter (\<lambda>i. available (map (\<lambda>p. p\<lparr>available := True\<rparr>) ps ! i)) [0..<length ps]
      = filter (\<lambda>i. True) [0..<length ps]"
    by (rule filter_cong) simp_all
  then show ?thesis
    by (simp add: availableIndices_eq)
qed

text \<open>
  Claim C10. \<^verbatim>\<open>findTopBestTimeSlots\<close> ignores the \<open>available\<close> flags of the series it is
  given. Its first pass runs on a working copy in which every period is available, whatever the
  incoming flags: the list of available indices is then the list of all indices. Two series that
  differ only in their flags give the same result, so changing the flags of a series in any way
  changes nothing. The selection itself (for each slot its rank, the original indices of its
  block, its total cost and its average price, or the error thrown) depends only on the sequence
  of prices: two series with the same prices in the same order give the same selection.
\<close>

theorem findTopBestTimeSlots_ignores_flags:
  "availableIndices (map (\<lambda>p. p\<lparr>available := True\<rparr>) ps) = map int [0..<length ps]
   \<and> selectSlots ps hours numSlots
       = selectionRounds (hours * 4) (nat numSlots) 0 (map (\<lambda>p. p\<lparr>available := True\<rparr>) ps, [])
   \<and> (map (\<lambda>p. p\<lparr>available := True\<rparr>) ps = map (\<lambda>p. p\<lparr>available := True\<rparr>) qs
        \<longrightarrow> findTopBestTimeSlots ps hours numSlots = findTopBestTimeSlots qs hours numSlots)
   \<and> findTopBestTimeSlots (map (\<lambda>p. p\<lparr>available := flag p\<rparr>) ps) hours numSlots
       = findTopBestTimeSlots ps hours numSlots
   \<and> (map calculated_price ps = map calculated_price qs
        \<longrightarrow> chosenBlocks ps hours numSlots = chosenBlocks qs hours numSlots)"
proof -
  have same: "findTopBestTimeSlots ps' hours numSlots = findTopBestTimeSlots qs' hours numSlots"
    if "map (\<lambda>p. p\<lparr>available := True\<rparr>) ps' = map (\<lambda>p. p\<lparr>available := True\<rparr>) qs'"
    for ps' qs'
    using that by (simp add: findTopBestTimeSlots_def selectSlots_def)
  have "map (\<lambda>p. p\<lparr>available := True\<rparr>) (map (\<lambda>p. p\<lparr>available := flag p\<rparr>) ps)
      = map (\<lambda>p. p\<lparr>available := True\<rparr>) ps"
    by simp
  from same [OF this] same [of ps qs] chosenBlocks_prices [of ps qs hours numSlots]
    availableIndices_all [of ps]
  show ?thesis
    by (simp add: selectSlots_def)
qed

theorem findTopBestTimeSlots_ignores_flags_witness:
  "\<not> available (examplePrices ! 1)
   \<and> map (\<lambda>p. p\<lparr>available := True\<rparr>) examplePrices
       = map (\<lambda>p. p\<lparr>available := True\<rparr>) (map (\<lambda>p. p\<lparr>available := True\<rparr>) examplePrices)
   \<and> findTopBestTimeSlots examplePrices (1 / 4) 5
       = findTopBestTimeSlots (map (\<lambda>p. p\<lparr>available := True\<rparr>) examplePrices) (1 / 4) 5
   \<and> findTopBestTimeSlots examplePrices (1 / 4) 5 = Inr exampleSlots
   \<and> rank (exampleSlots ! 0) = 1
   \<and> map timestamp (periods (exampleSlots ! 0)) = [timestamp (examplePrices ! 1)]"
proof -
  have f: "\<not> available (examplePrices ! 1)"
    by (simp add: examplePrices_def period_def)
  have h: "map (\<lambda>p. p\<lparr>available := True\<rparr>) examplePrices
       = map (\<lambda>p. p\<lparr>available := True\<rparr>) (map (\<lambda>p. p\<lparr>available := True\<rparr>) examplePrices)"
    by simp
  note t = findTopBestTimeSlots_ignores_flags
    [of examplePrices "1 / 4" 5 "map (\<lambda>p. p\<lparr>available := True\<rparr>) examplePrices"]
  from t [THEN conjunct2, THEN conjunct2, THEN conjunct1, rule_format, OF h]
  have e: "findTopBestTimeSlots examplePrices (1 / 4) 5
       = findTopBestTimeSlots (map (\<lambda>p. p\<lparr>available := True\<rparr>) examplePrices) (1 / 4) 5" .
  have r: "rank (exampleSlots ! 0) = 1"
    "map timestamp (periods (exampleSlots ! 0)) = [timestamp (examplePrices ! 1)]"
    by (simp_all add: exampleSlots_def examplePrices_def period_def)
  from f h e example_run r show ?thesis by (intro conjI)
qed

section \<open>Properties of the fetch pipeline\<close>

lemma fetchLoop_retry:
  assumes "failed (net a)" "a \<noteq> m - 1"
  shows "fetchLoop net url ds m (Suc n) a tr
           = fetchLoop net url ds m n (a + 1) (tr @ [Fetch url, Delay (2 ^ a * 1000)])"
  using assms by (auto simp: failed_def Let_def split: option.splits)

lemma fetchLoop_last:
  assumes "failed (net a)" "a = m - 1"
  shows "fetchLoop net url ds m (Suc n) a tr
           = (\<lparr> rawData = None,
                 status' = ''Failed to load prices for '' @ ds @ ''. Network error.'' \<rparr>,
              tr @ [Fetch url])"
  using assms by (auto simp: failed_def Let_def split: option.splits)

lemma fetchLoop_404:
  assumes "net a = Some r" "status r = 404"
  shows "fetchLoop net url ds m (Suc n) a tr
           = (\<lparr> rawData = None, status' = ''Prices for '' @ ds @ '' not yet released (404).'' \<rparr>,
              tr @ [Fetch url])"
  using assms by (simp add: Let_def)

lemma fetchLoop_loaded:
  assumes "net a = Some r" "status r \<noteq> 404" "ok r" "json r = Some d"
  shows "fetchLoop net url ds m (Suc n) a tr
           = (\<lparr> rawData = Some d,
                 status' = ''Prices for '' @ ds @ '' successfully loaded ('' @ digits (length d)
                            @ '' periods).'' \<rparr>,
              tr @ [Fetch url])"
  using assms by (simp add: Let_def)

lemma backoff_Suc: "backoff url (Suc a) = backoff url a @ [Fetch url, Delay (2 ^ a * 1000)]"
  by (simp add: backoff_def)

lemma fetchLoop_skip:
  assumes "\<forall>i<a. failed (net i)" "a < m"
  shows "fetchLoop net url ds m m 0 [] = fetchLoop net url ds m (m - a) a (backoff url a)"
  using assms
proof (induction a)
  case 0
  then show ?case by (simp add: backoff_def)
next
  case (Suc a)
  then have ih: "fetchLoop net url ds m m 0 [] = fetchLoop net url ds m (m - a) a (backoff url a)"
    by simp
  from Suc.prems have f: "failed (net a)" and n: "a \<noteq> m - 1" and s: "m - a = Suc (m - Suc a)"
    by auto
  have "fetchLoop net url ds m (Suc (m - Suc a)) a (backoff url a)
      = fetchLoop net url ds m (m - Suc a) (a + 1) (backoff url a @ [Fetch url, Delay (2 ^ a * 1000)])"
    using f n by (rule fetchLoop_retry)
  then show ?case
    unfolding ih s backoff_Suc by simp
qed

text \<open>Every run with at least one attempt allowed is decided at some attempt.\<close>

lemma deciding_attempt:
  fixes m :: nat and net :: "nat \<Rightarrow> response option"
  assumes "0 < m"
  shows "\<exists>a<m. (\<forall>i<a. failed (net i)) \<and> (\<not> failed (net a) \<or> a = m - 1)"
proof (cases "\<exists>a<m. \<not> failed (net a)")
  case True
  define a where "a = (LEAST a. a < m \<and> \<not> failed (net a))"
  from True obtain b where "b < m \<and> \<not> failed (net b)" by blast
  then have p: "a < m \<and> \<not> failed (net a)"
    unfolding a_def by (rule LeastI [of "\<lambda>a. a < m \<and> \<not> failed (net a)" b])
  have "failed (net i)" if "i < a" for i
  proof (rule ccontr)
    assume "\<not> failed (net i)"
    with that p have "i < m \<and> \<not> failed (net i)" by simp
    then have "a \<le> i"
      unfolding a_def by (rule Least_le [of "\<lambda>a. a < m \<and> \<not> failed (net a)" i])
    with that show False by simp
  qed
  with p show ?thesis by blast
next
  case False
  with assms show ?thesis
    by (intro exI [of _ "m - 1"]) auto
qed

text \<open>How a call of \<^verbatim>\<open>fetchPrices\<close> with at least one attempt allowed ends.\<close>

lemma fetchPrices_decided:
  assumes m: "maxRetries = (case maxRetries' of None \<Rightarrow> 3 | Some n \<Rightarrow> n)" and pos: "0 < maxRetries"
    and url: "url = getApiUrl h date z" and ds: "dateStr = toLocaleDateString h date"
  shows "\<exists>a<maxRetries.
           (\<forall>i<a. failed (fetch url i))
         \<and> snd (fetchPrices h fetch date z maxRetries') = backoff url a @ [Fetch url]
         \<and> (\<forall>r. fetch url a = Some r \<and> status r = 404
               \<longrightarrow> fst (fetchPrices h fetch date z maxRetries')
                     = \<lparr> rawData = None,
                         status' = ''Prices for '' @ dateStr @ '' not yet released (404).'' \<rparr>)
         \<and> (\<forall>r d. fetch url a = Some r \<and> status r \<noteq> 404 \<and> ok r \<and> json r = Some d
               \<longrightarrow> fst (fetchPrices h fetch date z maxRetries')
                     = \<lparr> rawData = Some d,
                         status' = ''Prices for '' @ dateStr @ '' successfully loaded (''
                                    @ digits (length d) @ '' periods).'' \<rparr>)
         \<and> (failed (fetch url a)
               \<longrightarrow> a = maxRetries - 1
                 \<and> fst (fetchPrices h fetch date z maxRetries')
                     = \<lparr> rawData = None,
                         status' = ''Failed to load prices for '' @ dateStr @ ''. Network error.'' \<rparr>)"
proof -
  let ?net = "fetch url"
  from deciding_attempt [OF pos, of ?net] obtain a
    where a: "a < maxRetries" and prior: "\<forall>i<a. failed (?net i)"
      and dec: "\<not> failed (?net a) \<or> a = maxRetries - 1"
    by blast
  have run: "fetchPrices h fetch date z maxRetries'
           = fetchLoop ?net url dateStr maxRetries (Suc (maxRetries - Suc a)) a (backoff url a)"
    using fetchLoop_skip [OF prior a, of url dateStr] a
    by (simp add: fetchPrices_def Let_def m [symmetric] url [symmetric] ds [symmetric] Suc_diff_Suc)
  have c404: "fetchPrices h fetch date z maxRetries'
           = (\<lparr> rawData = None, status' = ''Prices for '' @ dateStr @ '' not yet released (404).'' \<rparr>,
              backoff url a @ [Fetch url])"
    if "?net a = Some r" "status r = 404" for r
    unfolding run using that by (rule fetchLoop_404)
  have cok: "fetchPrices h fetch date z maxRetries'
           = (\<lparr> rawData = Some d,
                 status' = ''Prices for '' @ dateStr @ '' successfully loaded ('' @ digits (length d)
                            @ '' periods).'' \<rparr>,
              backoff url a @ [Fetch url])"
    if "?net a = Some r" "status r \<noteq> 404" "ok r" "json r = Some d" for r d
    unfolding run using that by (rule fetchLoop_loaded)
  have cfail: "a = maxRetries - 1 \<and> fetchPrices h fetch date z maxRetries'
           = (\<lparr> rawData = None,
                 status' = ''Failed to load prices for '' @ dateStr @ ''. Network error.'' \<rparr>,
              backoff url a @ [Fetch url])"
    if f: "failed (?net a)"
  proof -
    from f dec have l: "a = maxRetries - 1" by blast
    from fetchLoop_last [of ?net a maxRetries, OF f l] l show ?thesis unfolding run by simp
  qed
  have tr: "snd (fetchPrices h fetch date z maxRetries') = backoff url a @ [Fetch url]"
  proof (cases "failed (?net a)")
    case True
    from cfail [OF True] show ?thesis by simp
  next
    case False
    then obtain r where r: "?net a = Some r" "status r = 404 \<or> (ok r \<and> json r \<noteq> None)"
      by (auto simp: failed_def split: option.splits)
    show ?thesis
    proof (cases "status r = 404")
      case True
      from c404 [OF r(1) True] show ?thesis by simp
    next
      case False
      with r(2) obtain d where "ok r" "json r = Some d" by auto
      from cok [OF r(1) False this] show ?thesis by simp
    qed
  qed
  show ?thesis
    using a prior tr c404 cok cfail by (intro exI [of _ a]) simp
qed


text \<open>
  Claim C5. For every date and zone and every behaviour of the network, a call of
  \<^verbatim>\<open>fetchPrices\<close> that allows at least one attempt (three by default) resolves at some
  attempt \<open>a\<close> below the limit. Every attempt before it failed and was followed by a wait of
  \<open>2 ^ attempt\<close> seconds; nothing is requested and nothing is waited for after attempt \<open>a\<close>. A
  404 at attempt \<open>a\<close> gives no data and the status that the prices are not yet released; a
  successful response gives its data; a failure at attempt \<open>a\<close> happens only at the last
  attempt allowed and gives no data and the status of a network failure. The call always returns
  a result: no failure is thrown to the caller.
\<close>

theorem fetchPrices_retry_policy:
  assumes "maxRetries = (case maxRetries' of None \<Rightarrow> 3 | Some n \<Rightarrow> n)" and "0 < maxRetries"
    and "url = getApiUrl h date z" and "dateStr = toLocaleDateString h date"
  shows "\<exists>a<maxRetries.
           (\<forall>i<a. failed (fetch url i))
         \<and> snd (fetchPrices h fetch date z maxRetries') = backoff url a @ [Fetch url]
         \<and> (\<forall>r. fetch url a = Some r \<and> status r = 404
               \<longrightarrow> fst (fetchPrices h fetch date z maxRetries')
                     = \<lparr> rawData = None,
                         status' = ''Prices for '' @ dateStr @ '' not yet released (404).'' \<rparr>)
         \<and> (\<forall>r d. fetch url a = Some r \<and> status r \<noteq> 404 \<and> ok r \<and> json r = Some d
               \<longrightarrow> fst (fetchPrices h fetch date z maxRetries')
                     = \<lparr> rawData = Some d,
                         status' = ''Prices for '' @ dateStr @ '' successfully loaded (''
                                    @ digits (length d) @ '' periods).'' \<rparr>)
         \<and> (failed (fetch url a)
               \<longrightarrow> a = maxRetries - 1
                 \<and> fst (fetchPrices h fetch date z maxRetries')
                     = \<lparr> rawData = None,
                         status' = ''Failed to load prices for '' @ dateStr @ ''. Network error.'' \<rparr>)"
  using assms by (rule fetchPrices_decided)

theorem fetchPrices_retry_policy_witness:
  "(3::nat) = (case None :: nat option of None \<Rightarrow> 3 | Some n \<Rightarrow> n) \<and> (0::nat) < 3
   \<and> fetchPrices swedishWinter deadNet 1735774200000 ''SE3'' None
       = (\<lparr> rawData = None, status' = ''Failed to load prices for Jan 2. Network error.'' \<rparr>,
          [Fetch ''https://www.elprisetjustnu.se/api/v1/prices/2025/01-02_SE3.json'', Delay 1000,
           Fetch ''https://www.elprisetjustnu.se/api/v1/prices/2025/01-02_SE3.json'', Delay 2000,
           Fetch ''https://www.elprisetjustnu.se/api/v1/prices/2025/01-02_SE3.json''])
   \<and> fetchPrices swedishWinter exampleNet 1735860600000 ''SE3'' None
       = (\<lparr> rawData = None, status' = ''Prices for Jan 3 not yet released (404).'' \<rparr>,
          [Fetch ''https://www.elprisetjustnu.se/api/v1/prices/2025/01-03_SE3.json''])
   \<and> (\<exists>a<3.
         (\<forall>i<a. failed (deadNet (getApiUrl swedishWinter 1735774200000 ''SE3'') i))
       \<and> snd (fetchPrices swedishWinter deadNet 1735774200000 ''SE3'' None)
           = backoff (getApiUrl swedishWinter 1735774200000 ''SE3'') a
             @ [Fetch (getApiUrl swedishWinter 1735774200000 ''SE3'')]
       \<and> (failed (deadNet (getApiUrl swedishWinter 1735774200000 ''SE3'') a) \<longrightarrow> a = 3 - 1))"
proof -
  have m: "(3::nat) = (case None :: nat option of None \<Rightarrow> 3 | Some n \<Rightarrow> n)" and p: "(0::nat) < 3"
    by simp_all
  have d: "fetchPrices swedishWinter deadNet 1735774200000 ''SE3'' None
       = (\<lparr> rawData = None, status' = ''Failed to load prices for Jan 2. Network error.'' \<rparr>,
          [Fetch ''https://www.elprisetjustnu.se/api/v1/prices/2025/01-02_SE3.json'', Delay 1000,
           Fetch ''https://www.elprisetjustnu.se/api/v1/prices/2025/01-02_SE3.json'', Delay 2000,
           Fetch ''https://www.elprisetjustnu.se/api/v1/prices/2025/01-02_SE3.json''])"
    by code_simp
  have n: "fetchPrices swedishWinter exampleNet 1735860600000 ''SE3'' None
       = (\<lparr> rawData = None, status' = ''Prices for Jan 3 not yet released (404).'' \<rparr>,
          [Fetch ''https://www.elprisetjustnu.se/api/v1/prices/2025/01-03_SE3.json''])"
    by code_simp
  from fetchPrices_retry_policy [OF m p refl refl,
      where h = swedishWinter and date = 1735774200000 and z = "''SE3''" and fetch = deadNet]
  have e: "\<exists>a<3.
         (\<forall>i<a. failed (deadNet (getApiUrl swedishWinter 1735774200000 ''SE3'') i))
       \<and> snd (fetchPrices swedishWinter deadNet 1735774200000 ''SE3'' None)
           = backoff (getApiUrl swedishWinter 1735774200000 ''SE3'') a
             @ [Fetch (getApiUrl swedishWinter 1735774200000 ''SE3'')]
       \<and> (failed (deadNet (getApiUrl swedishWinter 1735774200000 ''SE3'') a) \<longrightarrow> a = 3 - 1)"
    by blast
  from m p d n e show ?thesis by (intro conjI)
qed

section \<open>Properties of the cache and of the orchestrator\<close>

lemma checkCache_hit:
  assumes "validCache store z (toISODate now) = Some e"
  shows "checkCacheAndFetchPrices h fetch now store z
           = (\<lparr> allRawPrices = sort_key time_start (today e @ tomorrow e),
                 statusMessage = ''Today: '' @ checkMark @ '' Cached. Tomorrow: '' @ checkMark
                                  @ '' Cached.'',
                 isCached = True \<rparr>,
              store, [], [])"
  using assms by (simp add: checkCacheAndFetchPrices_def)

lemma checkCache_miss:
  assumes "validCache store z (toISODate now) = None"
    and "todayRaw = orEmpty (rawData (fst (fetchPrices h fetch now z None)))"
    and "tomorrowRaw = orEmpty (rawData (fst (fetchPrices h fetch (now + 86400000) z None)))"
    and "checkCacheAndFetchPrices h fetch now store z = (result, store', t1, t2)"
  shows "allRawPrices result = sort_key time_start (todayRaw @ tomorrowRaw)"
    and "\<not> isCached result"
    and "t1 = snd (fetchPrices h fetch now z None)"
    and "t2 = snd (fetchPrices h fetch (now + 86400000) z None)"
    and "store' = (if todayRaw \<noteq> [] \<and> tomorrowRaw \<noteq> []
                   then store(CACHE_KEY \<mapsto>
                          Entry \<lparr> dateFetched = toISODate now, zone = z, today = todayRaw,
                                  tomorrow = tomorrowRaw \<rparr>)
                   else store)"
  using assms by (auto simp: checkCacheAndFetchPrices_def Let_def split: if_splits)


lemma miss_write_changes:
  assumes "validCache store z d = None"
  shows "store(CACHE_KEY \<mapsto> Entry \<lparr> dateFetched = d, zone = z, today = a, tomorrow = b \<rparr>) \<noteq> store"
proof
  assume "store(CACHE_KEY \<mapsto> Entry \<lparr> dateFetched = d, zone = z, today = a, tomorrow = b \<rparr>) = store"
  then have "store CACHE_KEY = Some (Entry \<lparr> dateFetched = d, zone = z, today = a, tomorrow = b \<rparr>)"
    by (metis fun_upd_same)
  then have "validCache store z d = Some \<lparr> dateFetched = d, zone = z, today = a, tomorrow = b \<rparr>"
    by (simp add: validCache_def)
  with assms show False by simp
qed

text \<open>
  Claim C6. \<^verbatim>\<open>checkCacheAndFetchPrices\<close> changes the store exactly when the cache check
  misses and both the fetch of today and the fetch of tomorrow gave data that is not empty; the
  store then holds, under the cache key, the entry with today's date string, the zone and the two
  arrays. In every other case (a hit, or a day whose data is missing or empty, as when tomorrow
  answers 404) the store is left as it was. After a miss the merged result holds exactly the
  periods of the two days, so the day that succeeded is there, sorted by start time.
\<close>

theorem checkCacheAndFetchPrices_cache_write:
  assumes "todayRaw = orEmpty (rawData (fst (fetchPrices h fetch now z None)))"
    and "tomorrowRaw = orEmpty (rawData (fst (fetchPrices h fetch (now + 86400000) z None)))"
    and "checkCacheAndFetchPrices h fetch now store z = (result, store', t1, t2)"
  shows "(store' \<noteq> store
            \<longleftrightarrow> validCache store z (toISODate now) = None \<and> todayRaw \<noteq> [] \<and> tomorrowRaw \<noteq> [])
       \<and> (store' \<noteq> store
            \<longrightarrow> store' = store(CACHE_KEY \<mapsto>
                            Entry \<lparr> dateFetched = toISODate now, zone = z, today = todayRaw,
                                    tomorrow = tomorrowRaw \<rparr>))
       \<and> (validCache store z (toISODate now) = None
            \<longrightarrow> mset (allRawPrices result) = mset todayRaw + mset tomorrowRaw
              \<and> sorted (map time_start (allRawPrices result))
              \<and> \<not> isCached result)"
proof (cases "validCache store z (toISODate now)")
  case (Some e)
  from checkCache_hit [OF Some, of h fetch] assms(3) have "store' = store" by simp
  with Some show ?thesis by simp
next
  case None
  note m = checkCache_miss [OF None assms]
  let ?w = "store(CACHE_KEY \<mapsto>
              Entry \<lparr> dateFetched = toISODate now, zone = z, today = todayRaw,
                      tomorrow = tomorrowRaw \<rparr>)"
  have w: "?w \<noteq> store" by (rule miss_write_changes [OF None])
  have 1: "store' \<noteq> store \<longleftrightarrow> todayRaw \<noteq> [] \<and> tomorrowRaw \<noteq> []"
    using m(5) w by (cases "todayRaw \<noteq> [] \<and> tomorrowRaw \<noteq> []") simp_all
  have 2: "store' \<noteq> store \<longrightarrow> store' = ?w"
    using m(5) by (cases "todayRaw \<noteq> [] \<and> tomorrowRaw \<noteq> []") simp_all
  have 3: "mset (allRawPrices result) = mset todayRaw + mset tomorrowRaw"
    "sorted (map time_start (allRawPrices result))"
    unfolding m(1) by simp_all
  from None 1 2 3 m(2) show ?thesis by simp
qed

theorem checkCacheAndFetchPrices_cache_write_witness:
  "orEmpty (rawData (fst (fetchPrices swedishWinter exampleNet 1735774200000 ''SE3'' None)))
     = [\<lparr>time_start = 1735772400000, SEK_per_kWh = 1 / 2\<rparr>]
   \<and> orEmpty (rawData (fst (fetchPrices swedishWinter exampleNet (1735774200000 + 86400000) ''SE3'' None)))
       = []
   \<and> validCache Map.empty ''SE3'' (toISODate 1735774200000) = None
   \<and> fst (snd (checkCacheAndFetchPrices swedishWinter exampleNet 1735774200000 Map.empty ''SE3''))
       = Map.empty
   \<and> mset (allRawPrices
              (fst (checkCacheAndFetchPrices swedishWinter exampleNet 1735774200000 Map.empty ''SE3'')))
       = mset [\<lparr>time_start = 1735772400000, SEK_per_kWh = 1 / 2\<rparr>] + mset []
   \<and> statusMessage
         (fst (checkCacheAndFetchPrices swedishWinter exampleNet 1735774200000 Map.empty ''SE3''))
       = ''Today: Prices for Jan 2 successfully loaded (1 periods). | Tomorrow: Prices for Jan 3 not yet released (404). | Warning: Partial data. Not caching.''
   \<and> orEmpty (rawData (fst (fetchPrices swedishWinter fullNet 1735732800000 ''SE3'' None)))
       = today exampleEntry
   \<and> orEmpty (rawData (fst (fetchPrices swedishWinter fullNet (1735732800000 + 86400000) ''SE3'' None)))
       = tomorrow exampleEntry
   \<and> fst (snd (checkCacheAndFetchPrices swedishWinter fullNet 1735732800000 Map.empty ''SE3''))
       = exampleStore"
proof -
  let ?X = "checkCacheAndFetchPrices swedishWinter exampleNet 1735774200000 Map.empty ''SE3''"
  let ?Y = "checkCacheAndFetchPrices swedishWinter fullNet 1735732800000 Map.empty ''SE3''"
  have a: "orEmpty (rawData (fst (fetchPrices swedishWinter exampleNet 1735774200000 ''SE3'' None)))
       = [\<lparr>time_start = 1735772400000, SEK_per_kWh = 1 / 2\<rparr>]"
    by code_simp
  have b: "orEmpty (rawData (fst (fetchPrices swedishWinter exampleNet (1735774200000 + 86400000) ''SE3'' None)))
       = []"
    by code_simp
  have v: "validCache Map.empty ''SE3'' d = None" for d
    by (simp add: validCache_def)
  have cx: "?X = (fst ?X, fst (snd ?X), fst (snd (snd ?X)), snd (snd (snd ?X)))"
    by simp
  note tx = checkCacheAndFetchPrices_cache_write [OF a [symmetric] b [symmetric] cx]
  from tx [THEN conjunct1] have sx: "fst (snd ?X) = Map.empty"
    by simp
  from tx [THEN conjunct2, THEN conjunct2, rule_format, OF v, THEN conjunct1]
  have mx: "mset (allRawPrices (fst ?X))
       = mset [\<lparr>time_start = 1735772400000, SEK_per_kWh = 1 / 2\<rparr>] + mset []" .
  have st: "statusMessage (fst ?X)
       = ''Today: Prices for Jan 2 successfully loaded (1 periods). | Tomorrow: Prices for Jan 3 not yet released (404). | Warning: Partial data. Not caching.''"
    by code_simp
  have c: "orEmpty (rawData (fst (fetchPrices swedishWinter fullNet 1735732800000 ''SE3'' None)))
       = today exampleEntry"
    by code_simp
  have d: "orEmpty (rawData (fst (fetchPrices swedishWinter fullNet (1735732800000 + 86400000) ''SE3'' None)))
       = tomorrow exampleEntry"
    by code_simp
  have cy: "?Y = (fst ?Y, fst (snd ?Y), fst (snd (snd ?Y)), snd (snd (snd ?Y)))"
    by simp
  note ty = checkCacheAndFetchPrices_cache_write [OF c [symmetric] d [symmetric] cy]
  have ne: "today exampleEntry \<noteq> []" "tomorrow exampleEntry \<noteq> []"
    by (simp_all add: exampleEntry_def)
  have iso: "toISODate 1735732800000 = ''2025-01-01''"
    by code_simp
  from ty [THEN conjunct1] v ne have "fst (snd ?Y) \<noteq> Map.empty"
    by simp
  from ty [THEN conjunct2, THEN conjunct1, rule_format, OF this] have "fst (snd ?Y)
      = Map.empty(CACHE_KEY \<mapsto>
          Entry \<lparr> dateFetched = toISODate 1735732800000, zone = ''SE3'', today = today exampleEntry,
                  tomorrow = tomorrow exampleEntry \<rparr>)" .
  then have sy: "fst (snd ?Y) = exampleStore"
    unfolding iso by (simp add: exampleStore_def exampleEntry_def)
  from a b v sx mx st c d sy show ?thesis by (intro conjI)
qed




lemma availablePrices_unfiltered: "availablePrices h allPrices startHour endHour = allPrices"
  by (simp add: availablePrices_def truthy_def)

text \<open>
  Claim C1 does not hold of the code. At 23:30 UTC of 1 January 2025, on a host one hour east
  of UTC, a calculation for the window from 8 to 16 o'clock gets a series of one period, which
  began at local midnight: it is in the past and its hour is 0. The orchestrator passes the
  whole series to the slot selector, and the slot it shows consists of that period.
\<close>

theorem handleCalculate_keeps_past_period:
  "fst (handleCalculate swedishWinter exampleNet 1735774200000 1735774200000 Map.empty
          exampleRequest)
     = Found
         [\<lparr> id_p = 1735772400000, timestamp = 1735772400000, base_price = 1 / 2,
             calculated_price = 5 / 8, isPast = True, dayTag = ''Jan 2'', available = True \<rparr>]
         [\<lparr> rank = 1, startTime = 1735772400000, endTime = 1735773300000, averagePrice = 5 / 8,
             totalCost = 5 / 8,
             periods =
               [\<lparr> id_p = 1735772400000, timestamp = 1735772400000, base_price = 1 / 2,
                   calculated_price = 5 / 8, isPast = True, dayTag = ''Jan 2'',
                   available = False \<rparr>] \<rparr>]
   \<and> getHours swedishWinter 1735772400000 = 0
   \<and> availablePrices swedishWinter
         [\<lparr> id_p = 1735772400000, timestamp = 1735772400000, base_price = 1 / 2,
             calculated_price = 5 / 8, isPast = True, dayTag = ''Jan 2'', available = True \<rparr>] 8 16
       = [\<lparr> id_p = 1735772400000, timestamp = 1735772400000, base_price = 1 / 2,
             calculated_price = 5 / 8, isPast = True, dayTag = ''Jan 2'', available = True \<rparr>]"
proof -
  have "fst (handleCalculate swedishWinter exampleNet 1735774200000 1735774200000 Map.empty
          exampleRequest)
     = Found
         [\<lparr> id_p = 1735772400000, timestamp = 1735772400000, base_price = 1 / 2,
             calculated_price = 5 / 8, isPast = True, dayTag = ''Jan 2'', available = True \<rparr>]
         [\<lparr> rank = 1, startTime = 1735772400000, endTime = 1735773300000, averagePrice = 5 / 8,
             totalCost = 5 / 8,
             periods =
               [\<lparr> id_p = 1735772400000, timestamp = 1735772400000, base_price = 1 / 2,
                   calculated_price = 5 / 8, isPast = True, dayTag = ''Jan 2'',
                   available = False \<rparr>] \<rparr>]"
    by code_simp
  moreover have "getHours swedishWinter 1735772400000 = 0"
    by code_simp
  ultimately show ?thesis
    by (simp add: availablePrices_unfiltered)
qed

theorem handleCalculate_keeps_past_period_witness:
  "\<exists>allPrices results slot p.
      fst (handleCalculate swedishWinter exampleNet 1735774200000 1735774200000 Map.empty
             exampleRequest) = Found allPrices results
    \<and> startHour_r exampleRequest = 8 \<and> endHour_r exampleRequest = 16
    \<and> slot \<in> set results \<and> p \<in> set (periods slot)
    \<and> isPast p
    \<and> \<not> (8 \<le> getHours swedishWinter (timestamp p) \<and> getHours swedishWinter (timestamp p) < 16)"
proof -
  let ?p = "\<lparr> id_p = 1735772400000, timestamp = 1735772400000, base_price = 1 / 2,
              calculated_price = 5 / 8, isPast = True, dayTag = ''Jan 2'', available = False \<rparr>"
  let ?slot = "\<lparr> rank = 1, startTime = 1735772400000, endTime = 1735773300000,
                 averagePrice = 5 / 8, totalCost = 5 / 8, periods = [?p] \<rparr>"
  let ?all = "[\<lparr> id_p = 1735772400000, timestamp = 1735772400000, base_price = 1 / 2,
                 calculated_price = 5 / 8, isPast = True, dayTag = ''Jan 2'',
                 available = True \<rparr>]"
  note t = handleCalculate_keeps_past_period
  have 1: "fst (handleCalculate swedishWinter exampleNet 1735774200000 1735774200000 Map.empty
             exampleRequest) = Found ?all [?slot]"
    by (rule t [THEN conjunct1])
  have 2: "getHours swedishWinter (timestamp ?p) = 0"
    using t [THEN conjunct2, THEN conjunct1] by simp
  have 3: "startHour_r exampleRequest = 8" "endHour_r exampleRequest = 16"
    by (simp_all add: exampleRequest_def)
  have 4: "?slot \<in> set [?slot]" "?p \<in> set (periods ?slot)" "isPast ?p"
    by simp_all
  have 5: "\<not> (8 \<le> getHours swedishWinter (timestamp ?p) \<and> getHours swedishWinter (timestamp ?p) < 16)"
    unfolding 2 by simp
  from 1 3 4 5 show ?thesis by blast
qed

end
